theory Spec2Isabelle
  imports Main "HOL-Library.AList" "HOL-Library.List_Lexorder" "HOL-Library.Char_ord"
    "HOL-Library.Product_Lexorder"
begin

section \<open>The graph container (lib/graph.py)\<close>

text \<open>
  Every exception the library can raise is a value.  The three kinds the library raises
  itself are all \<^verbatim>\<open>ValueError\<close> in the source and differ by their message:
  \<open>UnknownVertex\<close> (\<^verbatim>\<open>get_neighbors\<close>), \<open>WrongGraphKind\<close> (the guards of the
  spanning-tree and topological-sort functions) and \<open>CycleDetected\<close>.  The other
  three are raised by the interpreter: a missing dictionary key, a list index out of
  range, and \<^verbatim>\<open>list.index\<close> of an absent element.
\<close>

datatype error = UnknownVertex | WrongGraphKind | CycleDetected | KeyError | IndexError | ValueError

text \<open>A matrix cell holds \<^verbatim>\<open>float('inf')\<close> or a number; weights are integers.\<close>

datatype cell = Inf | Num int

text \<open>
  The adjacency dictionary is an association list in insertion order, read with
  \<^const>\<open>map_of\<close> and written with \<^const>\<open>AList.update\<close> (which overwrites in place
  and appends a new key at the end, as a Python dictionary does).
\<close>

type_synonym 'v adj = "('v \<times> ('v \<times> int) list) list"

record 'v graph =
  vertices :: "'v list"
  vertex_count :: nat
  is_directed :: bool
  is_weighted :: bool
  adj_list :: "'v adj"
  adj_matrix :: "cell list list"

definition build_matrix :: "'v graph \<Rightarrow> 'v graph" where
  "build_matrix g =
     (let n = vertex_count g in
      if is_weighted g
      then g\<lparr>adj_matrix := map (\<lambda>i. (replicate n Inf)[i := Num 0]) [0..<n]\<rparr>
      else g\<lparr>adj_matrix := replicate n (replicate n (Num 0))\<rparr>)"

definition Graph_init :: "'v list \<Rightarrow> bool \<Rightarrow> bool \<Rightarrow> 'v graph" where
  "Graph_init vs directed weighted =
     build_matrix
       \<lparr>vertices = vs, vertex_count = length vs, is_directed = directed,
        is_weighted = weighted, adj_list = fold (\<lambda>v d. AList.update v [] d) vs [],
        adj_matrix = []\<rparr>"

definition add_vertex :: "'v \<Rightarrow> 'v graph \<Rightarrow> 'v graph" where
  "add_vertex vertex g =
     (if vertex \<notin> set (vertices g)
      then build_matrix
             (g\<lparr>vertices := vertices g @ [vertex],
                vertex_count := vertex_count g + 1,
                adj_list := AList.update vertex [] (adj_list g)\<rparr>)
      else g)"

text \<open>\<^verbatim>\<open>xs.index(x)\<close>: the first position of \<open>x\<close>, or no position (a \<^verbatim>\<open>ValueError\<close>).\<close>

fun index_of :: "'a list \<Rightarrow> 'a \<Rightarrow> nat option" where
  "index_of [] x = None"
| "index_of (y # ys) x = (if y = x then Some 0 else map_option Suc (index_of ys x))"

text \<open>\<^verbatim>\<open>adj_list[k].append(e)\<close>: a missing key raises.\<close>

definition adj_append :: "'v \<Rightarrow> 'v \<times> int \<Rightarrow> 'v adj \<Rightarrow> error + 'v adj" where
  "adj_append k e d =
     (case map_of d k of
        None \<Rightarrow> Inl KeyError
      | Some l \<Rightarrow> Inr (AList.update k (l @ [e]) d))"

text \<open>\<^verbatim>\<open>m[i][j] = c\<close>: an index out of range raises.\<close>

definition matrix_set :: "nat \<Rightarrow> nat \<Rightarrow> cell \<Rightarrow> cell list list \<Rightarrow> error + cell list list" where
  "matrix_set i j c m =
     (if i < length m \<and> j < length (m ! i) then Inr (m[i := (m ! i)[j := c]])
      else Inl IndexError)"

definition add_edge :: "'v \<Rightarrow> 'v \<Rightarrow> int \<Rightarrow> 'v graph \<Rightarrow> error + 'v graph" where
  "add_edge source destination weight g =
     (let g1 = (if source \<notin> set (vertices g) then add_vertex source g else g);
          g2 = (if destination \<notin> set (vertices g1) then add_vertex destination g1 else g1)
      in
      case adj_append source (destination, weight) (adj_list g2) of
        Inl e \<Rightarrow> Inl e
      | Inr d1 \<Rightarrow>
      (case (if \<not> is_directed g2 then adj_append destination (source, weight) d1 else Inr d1) of
        Inl e \<Rightarrow> Inl e
      | Inr d2 \<Rightarrow>
      (case index_of (vertices g2) source of
        None \<Rightarrow> Inl ValueError
      | Some src_idx \<Rightarrow>
      (case index_of (vertices g2) destination of
        None \<Rightarrow> Inl ValueError
      | Some dst_idx \<Rightarrow>
      (let c = (if is_weighted g2 then Num weight else Num 1) in
       case matrix_set src_idx dst_idx c (adj_matrix g2) of
         Inl e \<Rightarrow> Inl e
       | Inr m1 \<Rightarrow>
       (case (if \<not> is_directed g2 then matrix_set dst_idx src_idx c m1 else Inr m1) of
         Inl e \<Rightarrow> Inl e
       | Inr m2 \<Rightarrow> Inr (g2\<lparr>adj_list := d2, adj_matrix := m2\<rparr>)))))))"

definition get_neighbors :: "'v graph \<Rightarrow> 'v \<Rightarrow> error + ('v \<times> int) list" where
  "get_neighbors g vertex =
     (case map_of (adj_list g) vertex of
        None \<Rightarrow> Inl UnknownVertex
      | Some l \<Rightarrow> Inr l)"

text \<open>The scan of \<^verbatim>\<open>get_edge_weight\<close>: the weight of the first matching entry.\<close>

fun first_weight :: "('v \<times> int) list \<Rightarrow> 'v \<Rightarrow> int option" where
  "first_weight [] destination = None"
| "first_weight ((neighbor, weight) # rest) destination =
     (if neighbor = destination then Some weight else first_weight rest destination)"

definition get_edge_weight :: "'v graph \<Rightarrow> 'v \<Rightarrow> 'v \<Rightarrow> error + int option" where
  "get_edge_weight g source destination =
     (case map_of (adj_list g) source of
        None \<Rightarrow> Inl KeyError
      | Some l \<Rightarrow> Inr (first_weight l destination))"

text \<open>
  A caller mutates a graph only through \<^verbatim>\<open>add_vertex\<close> and \<^verbatim>\<open>add_edge\<close>; a
  sequence of such calls stops at the first exception.
\<close>

datatype 'v call = AddVertex 'v | AddEdge 'v 'v int

fun run_call :: "'v call \<Rightarrow> 'v graph \<Rightarrow> error + 'v graph" where
  "run_call (AddVertex v) g = Inr (add_vertex v g)"
| "run_call (AddEdge s d w) g = add_edge s d w g"

fun run_calls :: "'v call list \<Rightarrow> 'v graph \<Rightarrow> error + 'v graph" where
  "run_calls [] g = Inr g"
| "run_calls (c # cs) g =
     (case run_call c g of Inl e \<Rightarrow> Inl e | Inr g' \<Rightarrow> run_calls cs g')"

text \<open>The adjacency sequence of a vertex, empty for a vertex that has none.\<close>

definition neighbors_of :: "'v graph \<Rightarrow> 'v \<Rightarrow> ('v \<times> int) list" where
  "neighbors_of g v = (case map_of (adj_list g) v of None \<Rightarrow> [] | Some l \<Rightarrow> l)"

text \<open>The shape every graph built through the interface has.\<close>

definition well_formed :: "'v graph \<Rightarrow> bool" where
  "well_formed g \<longleftrightarrow>
     vertex_count g = length (vertices g) \<and>
     length (adj_matrix g) = vertex_count g \<and>
     (\<forall>row \<in> set (adj_matrix g). length row = vertex_count g) \<and>
     distinct (map fst (adj_list g)) \<and>
     fst ` set (adj_list g) = set (vertices g) \<and>
     (\<forall>u l x w. (u, l) \<in> set (adj_list g) \<longrightarrow> (x, w) \<in> set l \<longrightarrow> x \<in> set (vertices g))"

subsection \<open>Shape invariants\<close>

lemma well_formed_entry:
  "well_formed g \<Longrightarrow> (u, l) \<in> set (adj_list g) \<Longrightarrow> (x, w) \<in> set l \<Longrightarrow> x \<in> set (vertices g)"
  unfolding well_formed_def by blast

lemma index_of_Some: "x \<in> set xs \<Longrightarrow> \<exists>i. index_of xs x = Some i \<and> i < length xs \<and> xs ! i = x"
  by (induction xs) auto

lemma index_of_None: "x \<notin> set xs \<Longrightarrow> index_of xs x = None"
  by (induction xs) auto

lemma index_of_first: "index_of xs x = Some i \<Longrightarrow> i < length xs \<and> xs ! i = x \<and> x \<notin> set (take i xs)"
proof (induction xs arbitrary: i)
  case Nil
  then show ?case by simp
next
  case (Cons y ys)
  show ?case
  proof (cases "y = x")
    case True
    with Cons.prems show ?thesis by simp
  next
    case False
    with Cons.prems obtain j where j: "index_of ys x = Some j" "i = Suc j"
      by auto
    from Cons.IH[OF j(1)] False j(2) show ?thesis by simp
  qed
qed

lemma fold_update_keys:
  "fst ` set (fold (\<lambda>v d. AList.update v [] d) vs d0) = set vs \<union> fst ` set d0"
  by (induction vs arbitrary: d0) (auto simp: dom_update)

lemma fold_update_distinct:
  "distinct (map fst d0) \<Longrightarrow> distinct (map fst (fold (\<lambda>v d. AList.update v [] d) vs d0))"
  by (induction vs arbitrary: d0) (auto simp: distinct_update)

lemma fold_update_entries:
  "(u, l) \<in> set (fold (\<lambda>v d. AList.update v [] d) vs d0) \<Longrightarrow> l = [] \<or> (u, l) \<in> set d0"
proof (induction vs arbitrary: d0)
  case Nil
  then show ?case by simp
next
  case (Cons v vs)
  from Cons.IH[OF Cons.prems[simplified]] show ?case
  proof
    assume "l = []" then show ?thesis by simp
  next
    assume "(u, l) \<in> set (AList.update v [] d0)"
    then show ?thesis
      by (induction d0) (auto split: if_splits)
  qed
qed

lemma set_update_subset:
  "(u, l) \<in> set (AList.update k v d) \<Longrightarrow> (u = k \<and> l = v) \<or> (u, l) \<in> set d"
  by (induction d) (auto split: if_splits)

lemma build_matrix_fields [simp]:
  "vertices (build_matrix g) = vertices g"
  "vertex_count (build_matrix g) = vertex_count g"
  "is_directed (build_matrix g) = is_directed g"
  "is_weighted (build_matrix g) = is_weighted g"
  "adj_list (build_matrix g) = adj_list g"
  by (simp_all add: build_matrix_def Let_def)

lemma build_matrix_square:
  "length (adj_matrix (build_matrix g)) = vertex_count g"
  "row \<in> set (adj_matrix (build_matrix g)) \<Longrightarrow> length row = vertex_count g"
  by (auto simp: build_matrix_def Let_def split: if_splits)

lemma well_formed_init: "well_formed (Graph_init vs directed weighted)"
  unfolding well_formed_def Graph_init_def
  by (auto simp: build_matrix_square fold_update_keys fold_update_distinct
      dest!: fold_update_entries)

lemma well_formed_add_vertex: "well_formed g \<Longrightarrow> well_formed (add_vertex v g)"
  unfolding well_formed_def add_vertex_def
  by (auto simp: build_matrix_square dom_update distinct_update dest!: set_update_subset)
    blast+

lemma add_vertex_fields [simp]:
  "is_directed (add_vertex v g) = is_directed g"
  "is_weighted (add_vertex v g) = is_weighted g"
  "set (vertices (add_vertex v g)) = insert v (set (vertices g))"
  by (auto simp: add_vertex_def)

lemma neighbors_of_add_vertex:
  "well_formed g \<Longrightarrow> neighbors_of (add_vertex v g) u = neighbors_of g u"
  by (auto simp: neighbors_of_def add_vertex_def update_conv' well_formed_def
      split: option.splits dest!: map_of_SomeD) force

lemma map_of_keys: "distinct (map fst d) \<Longrightarrow> k \<in> fst ` set d \<Longrightarrow> \<exists>l. map_of d k = Some l \<and> (k, l) \<in> set d"
  by (induction d) auto

lemma adj_append_ok:
  assumes "k \<in> fst ` set d"
  shows "\<exists>d'. adj_append k e d = Inr d' \<and> fst ` set d' = fst ` set d \<and>
           (distinct (map fst d) \<longrightarrow> distinct (map fst d')) \<and>
           (\<forall>u. map_of d' u = (if u = k then map_option (\<lambda>l. l @ [e]) (map_of d k) else map_of d u))"
proof -
  from assms obtain l where l: "map_of d k = Some l"
    by (metis domIff dom_map_of_conv_image_fst not_Some_eq)
  have "fst ` set (AList.update k (l @ [e]) d) = fst ` set d"
    using assms by (auto simp: dom_update)
  with l show ?thesis
    by (auto simp: adj_append_def distinct_update update_conv')
qed

lemma matrix_set_ok:
  assumes "i < n" "j < n" "length m = n" "\<forall>row \<in> set m. length row = n"
  shows "\<exists>m'. matrix_set i j c m = Inr m' \<and> length m' = n \<and> (\<forall>row \<in> set m'. length row = n)"
proof -
  have "length (m ! i) = n" using assms by simp
  moreover have "\<forall>row \<in> set (m[i := (m ! i)[j := c]]). length row = n"
    using assms by (auto dest!: set_update_subset_insert[THEN subsetD])
  ultimately show ?thesis using assms by (simp add: matrix_set_def)
qed

text \<open>On a well-formed graph \<^const>\<open>add_edge\<close> raises nothing; what it returns.\<close>

lemma add_edge_ok:
  assumes wf: "well_formed g"
  shows "\<exists>g'. add_edge s d w g = Inr g' \<and> well_formed g' \<and>
           is_directed g' = is_directed g \<and> is_weighted g' = is_weighted g \<and>
           set (vertices g') = insert s (insert d (set (vertices g))) \<and>
           (\<forall>u. neighbors_of g' u =
                 neighbors_of g u @ (if u = s then [(d, w)] else []) @
                 (if \<not> is_directed g \<and> u = d then [(s, w)] else []))"
proof -
  define g1 where "g1 = (if s \<notin> set (vertices g) then add_vertex s g else g)"
  define g2 where "g2 = (if d \<notin> set (vertices g1) then add_vertex d g1 else g1)"
  have wf2: "well_formed g2"
    using wf by (simp add: g1_def g2_def well_formed_add_vertex)
  have vs2: "set (vertices g2) = insert s (insert d (set (vertices g)))"
    by (auto simp: g1_def g2_def)
  have fl2: "is_directed g2 = is_directed g" "is_weighted g2 = is_weighted g"
    by (simp_all add: g1_def g2_def)
  have wf1: "well_formed g1"
    using wf by (simp add: g1_def well_formed_add_vertex)
  have nb2: "neighbors_of g2 u = neighbors_of g u" for u
    using wf wf1 by (simp add: g1_def g2_def neighbors_of_add_vertex)
  have keys2: "fst ` set (adj_list g2) = set (vertices g2)" and dist2: "distinct (map fst (adj_list g2))"
    using wf2 by (simp_all add: well_formed_def)
  have "s \<in> fst ` set (adj_list g2)" using keys2 vs2 by simp
  from adj_append_ok[OF this, of "(d, w)"] dist2 obtain d1 where d1:
    "adj_append s (d, w) (adj_list g2) = Inr d1" "fst ` set d1 = fst ` set (adj_list g2)"
    "distinct (map fst d1)"
    "\<And>u. map_of d1 u = (if u = s then map_option (\<lambda>l. l @ [(d, w)]) (map_of (adj_list g2) s) else map_of (adj_list g2) u)"
    by blast
  have "d \<in> fst ` set d1" using d1(2) keys2 vs2 by simp
  from adj_append_ok[OF this, of "(s, w)"] d1(3) obtain d1' where d1':
    "adj_append d (s, w) d1 = Inr d1'" "fst ` set d1' = fst ` set d1"
    "distinct (map fst d1')"
    "\<And>u. map_of d1' u = (if u = d then map_option (\<lambda>l. l @ [(s, w)]) (map_of d1 d) else map_of d1 u)"
    by blast
  define d2 where "d2 = (if \<not> is_directed g2 then d1' else d1)"
  have d2: "(if \<not> is_directed g2 then adj_append d (s, w) d1 else Inr d1) = Inr d2"
    by (simp add: d2_def d1')
  have d2keys: "fst ` set d2 = set (vertices g2)" "distinct (map fst d2)"
    using d1 d1' keys2 by (auto simp: d2_def)
  have sdom: "map_of (adj_list g2) s \<noteq> None" "map_of (adj_list g2) d \<noteq> None"
    using keys2 vs2 by (auto simp: map_of_eq_None_iff)
  have d2map: "(case map_of d2 u of None \<Rightarrow> [] | Some l \<Rightarrow> l) =
        neighbors_of g2 u @ (if u = s then [(d, w)] else []) @
        (if \<not> is_directed g2 \<and> u = d then [(s, w)] else [])" for u
    using sdom by (auto simp: d2_def d1 d1' neighbors_of_def split: option.splits)
  obtain si where si: "index_of (vertices g2) s = Some si" "si < length (vertices g2)"
    using index_of_Some[of s "vertices g2"] vs2 by auto
  obtain di where di: "index_of (vertices g2) d = Some di" "di < length (vertices g2)"
    using index_of_Some[of d "vertices g2"] vs2 by auto
  define c where "c = (if is_weighted g2 then Num w else Num 1)"
  have sq: "length (adj_matrix g2) = length (vertices g2)"
    "\<forall>row \<in> set (adj_matrix g2). length row = length (vertices g2)"
    using wf2 by (simp_all add: well_formed_def)
  from matrix_set_ok[OF si(2) di(2) sq, of c] obtain m1 where m1:
    "matrix_set si di c (adj_matrix g2) = Inr m1" "length m1 = length (vertices g2)"
    "\<forall>row \<in> set m1. length row = length (vertices g2)"
    by blast
  from matrix_set_ok[OF di(2) si(2) m1(2,3), of c] obtain m1' where m1':
    "matrix_set di si c m1 = Inr m1'" "length m1' = length (vertices g2)"
    "\<forall>row \<in> set m1'. length row = length (vertices g2)"
    by blast
  define m2 where "m2 = (if \<not> is_directed g2 then m1' else m1)"
  have m2: "(if \<not> is_directed g2 then matrix_set di si c m1 else Inr m1) = Inr m2"
    by (simp add: m2_def m1')
  have m2sq: "length m2 = length (vertices g2)" "\<forall>row \<in> set m2. length row = length (vertices g2)"
    using m1 m1' by (auto simp: m2_def)
  define g' where "g' = g2\<lparr>adj_list := d2, adj_matrix := m2\<rparr>"
  have res: "add_edge s d w g = Inr g'"
    unfolding add_edge_def Let_def g1_def[symmetric] g2_def[symmetric]
    by (simp only: d1(1) d2 si(1) di(1) c_def[symmetric] m1(1) m2 sum.case option.case g'_def)
  have ent: "x \<in> set (vertices g2)" if "(u, l) \<in> set d2" "(x, w') \<in> set l" for u l x w'
  proof -
    from that(1) d2keys(2) have "map_of d2 u = Some l" by simp
    with d2map[of u] have l: "l = neighbors_of g2 u @ (if u = s then [(d, w)] else []) @
        (if \<not> is_directed g2 \<and> u = d then [(s, w)] else [])" by simp
    have "x \<in> set (vertices g2)" if "(x, w') \<in> set (neighbors_of g2 u)"
    proof -
      from that obtain l0 where "map_of (adj_list g2) u = Some l0" "(x, w') \<in> set l0"
        by (cases "map_of (adj_list g2) u") (auto simp: neighbors_of_def)
      then show ?thesis using well_formed_entry[OF wf2] by (blast dest: map_of_SomeD)
    qed
    with l that(2) vs2 show ?thesis by (auto split: if_splits)
  qed
  have "well_formed g'"
    using wf2 d2keys m2sq ent unfolding well_formed_def g'_def by auto
  moreover have "neighbors_of g' u = neighbors_of g u @ (if u = s then [(d, w)] else []) @
                 (if \<not> is_directed g \<and> u = d then [(s, w)] else [])" for u
    using d2map[of u] by (simp add: neighbors_of_def g'_def nb2[unfolded neighbors_of_def] fl2)
  ultimately show ?thesis
    using res vs2 fl2 by (auto simp: g'_def)
qed

lemma run_call_ok:
  assumes "well_formed g"
  shows "\<exists>g'. run_call c g = Inr g' \<and> well_formed g' \<and> is_directed g' = is_directed g \<and>
           is_weighted g' = is_weighted g"
proof (cases c)
  case (AddVertex v)
  then show ?thesis using assms by (simp add: well_formed_add_vertex)
next
  case (AddEdge s d w)
  then show ?thesis using add_edge_ok[OF assms, of s d w] by auto
qed

lemma run_calls_ok:
  assumes "well_formed g"
  shows "\<exists>g'. run_calls cs g = Inr g' \<and> well_formed g' \<and> is_directed g' = is_directed g \<and>
           is_weighted g' = is_weighted g"
  using assms
proof (induction cs arbitrary: g)
  case Nil
  then show ?case by simp
next
  case (Cons c cs)
  from run_call_ok[OF Cons.prems, of c] obtain g1 where g1:
    "run_call c g = Inr g1" "well_formed g1" "is_directed g1 = is_directed g"
    "is_weighted g1 = is_weighted g"
    by blast
  from Cons.IH[OF g1(2)] g1 show ?case by auto
qed

lemma Graph_init_fields [simp]:
  "is_directed (Graph_init vs dr wt) = dr"
  "is_weighted (Graph_init vs dr wt) = wt"
  "vertices (Graph_init vs dr wt) = vs"
  by (simp_all add: Graph_init_def)

text \<open>The graphs a caller can build: a constructor call, then calls of the two mutators.\<close>

definition built :: "'v list \<Rightarrow> bool \<Rightarrow> bool \<Rightarrow> 'v call list \<Rightarrow> 'v graph \<Rightarrow> bool" where
  "built vs dr wt cs g \<longleftrightarrow> run_calls cs (Graph_init vs dr wt) = Inr g"

lemma built_well_formed:
  assumes "built vs dr wt cs g"
  shows "well_formed g \<and> is_directed g = dr \<and> is_weighted g = wt"
  using run_calls_ok[OF well_formed_init, of cs vs dr wt] assms by (auto simp: built_def)

lemma built_total: "\<exists>g. built vs dr wt cs g"
  using run_calls_ok[OF well_formed_init, of cs vs dr wt] by (auto simp: built_def)

lemma one_entry_per_key:
  "distinct (map fst d) \<Longrightarrow> k \<in> fst ` set d \<Longrightarrow> length (filter (\<lambda>e. fst e = k) d) = 1"
proof (induction d)
  case Nil
  then show ?case by simp
next
  case (Cons e d)
  show ?case
  proof (cases "fst e = k")
    case True
    from Cons.prems(1) have "fst e \<notin> fst ` set d" by simp
    with True have "\<forall>x \<in> set d. fst x \<noteq> k"
      by blast
    then have "filter (\<lambda>e. fst e = k) d = []"
      by (simp add: filter_empty_conv)
    with True show ?thesis by simp
  next
    case False
    with Cons show ?thesis by auto
  qed
qed

text \<open>
  Claim C4.  A constructor call with a duplicate-free vertex list followed by any finite
  sequence of \<^verbatim>\<open>add_vertex\<close> and \<^verbatim>\<open>add_edge\<close> calls raises nothing and yields a graph
  in which \<open>vertex_count\<close> is the length of the vertex list, the adjacency matrix is
  square of dimension \<open>vertex_count\<close>, and every vertex of the list has exactly one
  entry in the adjacency dictionary.
\<close>

theorem graph_shape_invariant:
  assumes "distinct vs"
  shows "\<exists>g. built vs dr wt cs g \<and>
           vertex_count g = length (vertices g) \<and>
           length (adj_matrix g) = vertex_count g \<and>
           (\<forall>row \<in> set (adj_matrix g). length row = vertex_count g) \<and>
           (\<forall>v \<in> set (vertices g). length (filter (\<lambda>e. fst e = v) (adj_list g)) = 1)"
proof -
  obtain g where g: "built vs dr wt cs g"
    using built_total by blast
  then have wf: "well_formed g"
    using built_well_formed by blast
  have "\<forall>v \<in> set (vertices g). length (filter (\<lambda>e. fst e = v) (adj_list g)) = 1"
  proof
    fix v assume "v \<in> set (vertices g)"
    with wf have "distinct (map fst (adj_list g))" "v \<in> fst ` set (adj_list g)"
      by (simp_all add: well_formed_def)
    then show "length (filter (\<lambda>e. fst e = v) (adj_list g)) = 1"
      by (rule one_entry_per_key)
  qed
  moreover from wf have "vertex_count g = length (vertices g)"
    "length (adj_matrix g) = vertex_count g"
    "\<forall>row \<in> set (adj_matrix g). length row = vertex_count g"
    by (simp_all add: well_formed_def)
  ultimately show ?thesis
    using g by (intro exI[of _ g] conjI)
qed

theorem graph_shape_invariant_witness:
  "distinct [''A''] \<and>
   (\<exists>g. run_calls [AddEdge ''A'' ''B'' 4, AddVertex ''C''] (Graph_init [''A''] False True) = Inr g \<and>
        vertex_count g = length (vertices g) \<and>
        length (adj_matrix g) = vertex_count g \<and>
        list_all (\<lambda>row. length row = vertex_count g) (adj_matrix g) \<and>
        list_all (\<lambda>v. length (filter (\<lambda>e. fst e = v) (adj_list g)) = 1) (vertices g))"
  using graph_shape_invariant[of "[''A'']" False True "[AddEdge ''A'' ''B'' 4, AddVertex ''C'']"]
  by (simp add: built_def list_all_iff)

subsection \<open>Symmetry of undirected adjacency\<close>

lemma neighbors_of_init: "neighbors_of (Graph_init vs dr wt) u = []"
  by (auto simp: neighbors_of_def Graph_init_def split: option.splits
      dest!: map_of_SomeD fold_update_entries)

lemma symmetric_run_calls:
  assumes "well_formed g" "\<not> is_directed g"
    and "\<And>u v w. u \<noteq> v \<Longrightarrow> (v, w) \<in> set (neighbors_of g u) \<longleftrightarrow> (u, w) \<in> set (neighbors_of g v)"
    and "run_calls cs g = Inr g'" "u \<noteq> v"
  shows "(v, w) \<in> set (neighbors_of g' u) \<longleftrightarrow> (u, w) \<in> set (neighbors_of g' v)"
  using assms
proof (induction cs arbitrary: g)
  case Nil
  then show ?case by simp
next
  case (Cons c cs)
  from run_call_ok[OF Cons.prems(1), of c] obtain g1 where g1:
    "run_call c g = Inr g1" "well_formed g1" "is_directed g1 = is_directed g"
    by blast
  have sym1: "(y, z) \<in> set (neighbors_of g1 x) \<longleftrightarrow> (x, z) \<in> set (neighbors_of g1 y)"
    if "x \<noteq> y" for x y z
  proof (cases c)
    case (AddVertex a)
    with g1(1) have "g1 = add_vertex a g" by simp
    then show ?thesis
      using Cons.prems(3)[OF that] by (simp add: neighbors_of_add_vertex[OF Cons.prems(1)])
  next
    case (AddEdge s d e)
    with g1(1) have "add_edge s d e g = Inr g1" by simp
    with add_edge_ok[OF Cons.prems(1), of s d e] Cons.prems(2)
    have nb: "neighbors_of g1 q =
        neighbors_of g q @ (if q = s then [(d, e)] else []) @ (if q = d then [(s, e)] else [])" for q
      by auto
    show ?thesis
      using Cons.prems(3)[OF that] that by (auto simp: nb)
  qed
  from Cons.prems(4) g1(1) have "run_calls cs g1 = Inr g'" by simp
  from Cons.IH[OF g1(2) _ sym1 this Cons.prems(5)] g1(3) Cons.prems(2) show ?case by simp
qed

text \<open>
  Claim C5.  In every undirected graph built by a constructor call and
  \<^verbatim>\<open>add_vertex\<close>/\<^verbatim>\<open>add_edge\<close> calls, for distinct vertices \<open>u\<close>, \<open>v\<close> and every
  weight \<open>w\<close>: \<open>(v, w)\<close> is in \<open>u\<close>'s adjacency list iff \<open>(u, w)\<close> is in \<open>v\<close>'s.
\<close>

theorem undirected_symmetry:
  assumes "built vs False wt cs g" and "u \<noteq> v"
  shows "(v, w) \<in> set (neighbors_of g u) \<longleftrightarrow> (u, w) \<in> set (neighbors_of g v)"
proof (rule symmetric_run_calls[OF well_formed_init _ _ _ assms(2)])
  show "\<not> is_directed (Graph_init vs False wt)" by simp
  show "run_calls cs (Graph_init vs False wt) = Inr g"
    using assms(1) by (simp add: built_def)
qed (simp add: neighbors_of_init)

theorem undirected_symmetry_witness:
  "built [''A''] False True [AddEdge ''A'' ''B'' 4, AddEdge ''C'' ''C'' 2]
     \<lparr>vertices = [''A'', ''B'', ''C''], vertex_count = 3, is_directed = False, is_weighted = True,
      adj_list = [(''A'', [(''B'', 4)]), (''B'', [(''A'', 4)]), (''C'', [(''C'', 2), (''C'', 2)])],
      adj_matrix = [[Num 0, Inf, Inf], [Inf, Num 0, Inf], [Inf, Inf, Num 2]]\<rparr> \<and>
   ''A'' \<noteq> ''B'' \<and>
   (''B'', 4) \<in> set (neighbors_of
     \<lparr>vertices = [''A'', ''B'', ''C''], vertex_count = 3, is_directed = False, is_weighted = True,
      adj_list = [(''A'', [(''B'', 4)]), (''B'', [(''A'', 4)]), (''C'', [(''C'', 2), (''C'', 2)])],
      adj_matrix = [[Num 0, Inf, Inf], [Inf, Num 0, Inf], [Inf, Inf, Num 2]]\<rparr> ''A'') \<and>
   (''A'', 4) \<in> set (neighbors_of
     \<lparr>vertices = [''A'', ''B'', ''C''], vertex_count = 3, is_directed = False, is_weighted = True,
      adj_list = [(''A'', [(''B'', 4)]), (''B'', [(''A'', 4)]), (''C'', [(''C'', 2), (''C'', 2)])],
      adj_matrix = [[Num 0, Inf, Inf], [Inf, Num 0, Inf], [Inf, Inf, Num 2]]\<rparr> ''B'')"
proof -
  have b: "built [''A''] False True [AddEdge ''A'' ''B'' 4, AddEdge ''C'' ''C'' 2]
     \<lparr>vertices = [''A'', ''B'', ''C''], vertex_count = 3, is_directed = False, is_weighted = True,
      adj_list = [(''A'', [(''B'', 4)]), (''B'', [(''A'', 4)]), (''C'', [(''C'', 2), (''C'', 2)])],
      adj_matrix = [[Num 0, Inf, Inf], [Inf, Num 0, Inf], [Inf, Inf, Num 2]]\<rparr>"
    by code_simp
  have n: "''A'' \<noteq> ''B''" by simp
  have l: "(''B'', 4) \<in> set (neighbors_of
     \<lparr>vertices = [''A'', ''B'', ''C''], vertex_count = 3, is_directed = False, is_weighted = True,
      adj_list = [(''A'', [(''B'', 4)]), (''B'', [(''A'', 4)]), (''C'', [(''C'', 2), (''C'', 2)])],
      adj_matrix = [[Num 0, Inf, Inf], [Inf, Num 0, Inf], [Inf, Inf, Num 2]]\<rparr> ''A'')"
    by (simp add: neighbors_of_def)
  from undirected_symmetry[OF b n, of 4] b n l show ?thesis by blast
qed

subsection \<open>The matrix after \<^verbatim>\<open>add_vertex\<close>\<close>









subsection \<open>\<^verbatim>\<open>get_edge_weight\<close>\<close>

lemma first_weight_None: "first_weight l d = None \<longleftrightarrow> d \<notin> fst ` set l"
  by (induction l d rule: first_weight.induct) auto

text \<open>
  Claim C10.  \<^verbatim>\<open>get_edge_weight(source, destination)\<close> returns the sentinel \<open>None\<close>
  exactly when \<open>source\<close> is a key of the adjacency dictionary and no entry of its list
  matches \<open>destination\<close>; when \<open>source\<close> is not a key the call raises the missing-key
  error.  In a well-formed graph the keys are the vertices.
\<close>

theorem get_edge_weight_sentinel:
  "(get_edge_weight g s d = Inr None \<longleftrightarrow>
      s \<in> fst ` set (adj_list g) \<and> d \<notin> fst ` set (neighbors_of g s)) \<and>
   (s \<notin> fst ` set (adj_list g) \<longrightarrow> get_edge_weight g s d = Inl KeyError) \<and>
   (well_formed g \<longrightarrow> (s \<in> fst ` set (adj_list g) \<longleftrightarrow> s \<in> set (vertices g)))"
proof (cases "map_of (adj_list g) s")
  case None
  then have "s \<notin> fst ` set (adj_list g)"
    by (simp add: map_of_eq_None_iff)
  with None show ?thesis
    by (auto simp: get_edge_weight_def well_formed_def)
next
  case (Some l)
  then have "s \<in> fst ` set (adj_list g)"
    by (metis map_of_eq_None_iff option.distinct(1))
  with Some show ?thesis
    by (auto simp: get_edge_weight_def neighbors_of_def first_weight_None well_formed_def)
qed

theorem get_edge_weight_sentinel_witness:
  "get_edge_weight (Graph_init [''A'', ''B''] False False) ''A'' ''B'' = Inr None \<and>
   ''Z'' \<notin> fst ` set (adj_list (Graph_init [''A'', ''B''] False False)) \<and>
   get_edge_weight (Graph_init [''A'', ''B''] False False) ''Z'' ''A'' = Inl KeyError \<and>
   well_formed (Graph_init [''A'', ''B''] False False) \<and>
   ''A'' \<in> set (vertices (Graph_init [''A'', ''B''] False False))"
proof -
  let ?g = "Graph_init [''A'', ''B''] False False :: string graph"
  have k: "''Z'' \<notin> fst ` set (adj_list ?g)"
    by (simp add: Graph_init_def)
  have a: "''A'' \<in> fst ` set (adj_list ?g) \<and> ''B'' \<notin> fst ` set (neighbors_of ?g ''A'')"
    by (simp add: Graph_init_def neighbors_of_def)
  from get_edge_weight_sentinel[of ?g "''A''" "''B''"] a
  have 1: "get_edge_weight ?g ''A'' ''B'' = Inr None" by blast
  from get_edge_weight_sentinel[of ?g "''Z''" "''A''"] k
  have 2: "get_edge_weight ?g ''Z'' ''A'' = Inl KeyError" by blast
  from 1 k 2 well_formed_init[of "[''A'', ''B'']" False False] show ?thesis by simp
qed

section \<open>Breadth-first search (lib/traversal.py)\<close>

text \<open>
  The inner loop of \<^verbatim>\<open>BFS.traverse\<close> and \<^verbatim>\<open>BFS.connected_components\<close>: every
  neighbour not yet visited is marked and joins the queue.
\<close>

fun visit_neighbors :: "('v \<times> int) list \<Rightarrow> 'v set \<times> 'v list \<Rightarrow> 'v set \<times> 'v list" where
  "visit_neighbors [] (visited, queue) = (visited, queue)"
| "visit_neighbors ((neighbor, _) # rest) (visited, queue) =
     (if neighbor \<notin> visited
      then visit_neighbors rest (insert neighbor visited, queue @ [neighbor])
      else visit_neighbors rest (visited, queue))"

text \<open>Every vertex named in some adjacency list: the vertices a search can discover.\<close>

definition targets :: "'v graph \<Rightarrow> 'v set" where
  "targets g = (\<Union>e \<in> set (adj_list g). fst ` set (snd e))"

lemma finite_targets [simp]: "finite (targets g)"
  by (simp add: targets_def)

lemma get_neighbors_Inr: "get_neighbors g v = Inr ns \<longleftrightarrow> map_of (adj_list g) v = Some ns"
  by (simp add: get_neighbors_def split: option.splits)

lemma get_neighbors_targets:
  assumes "get_neighbors g v = Inr ns"
  shows "fst ` set ns \<subseteq> targets g"
proof -
  from assms have "(v, ns) \<in> set (adj_list g)"
    by (simp add: get_neighbors_Inr map_of_SomeD)
  then show ?thesis
    unfolding targets_def by force
qed

lemma visit_neighbors_grows:
  "visit_neighbors ns (visited, queue) = (visited', queue') \<Longrightarrow>
     visited \<subseteq> visited' \<and> visited' \<subseteq> visited \<union> fst ` set ns \<and>
     (\<exists>new. queue' = queue @ new \<and> set new = visited' - visited \<and> distinct new)"
proof (induction ns arbitrary: visited queue)
  case Nil
  then show ?case by simp
next
  case (Cons e ns)
  obtain neighbor w where e: "e = (neighbor, w)" by (cases e)
  show ?case
  proof (cases "neighbor \<in> visited")
    case True
    with Cons.prems e have "visit_neighbors ns (visited, queue) = (visited', queue')" by simp
    from Cons.IH[OF this] show ?thesis by auto
  next
    case False
    with Cons.prems e
    have "visit_neighbors ns (insert neighbor visited, queue @ [neighbor]) = (visited', queue')"
      by simp
    from Cons.IH[OF this] obtain new where new:
      "insert neighbor visited \<subseteq> visited'" "visited' \<subseteq> insert neighbor visited \<union> fst ` set ns"
      "queue' = (queue @ [neighbor]) @ new" "set new = visited' - insert neighbor visited"
      "distinct new"
      by blast
    have "set (neighbor # new) = visited' - visited" "distinct (neighbor # new)"
      using new False by auto
    with new e show ?thesis
      by (intro conjI exI[of _ "neighbor # new"]) auto
  qed
qed

lemma card_unvisited_less:
  assumes "visited \<subseteq> visited'" "visited' - visited \<subseteq> U" "visited' \<noteq> visited" "finite U"
  shows "card (U - visited') < card (U - visited)"
proof (rule psubset_card_mono)
  show "finite (U - visited)" using assms(4) by simp
  from assms(1,3) obtain x where "x \<in> visited'" "x \<notin> visited" by blast
  with assms(2) have "x \<in> U - visited" "x \<notin> U - visited'" by auto
  moreover have "U - visited' \<subseteq> U - visited" using assms(1) by blast
  ultimately show "U - visited' \<subset> U - visited" by blast
qed

text \<open>
  The \<^verbatim>\<open>while queue\<close> loop of \<^verbatim>\<open>connected_components\<close>.  It ends because a round
  either marks a new vertex of the graph or shortens the queue.
\<close>

function bfs_component ::
  "'v graph \<Rightarrow> 'v list \<Rightarrow> 'v set \<Rightarrow> 'v list \<Rightarrow> error + 'v set \<times> 'v list" where
  "bfs_component g queue visited component =
     (case queue of
        [] \<Rightarrow> Inr (visited, component)
      | v # rest \<Rightarrow>
          (case get_neighbors g v of
             Inl e \<Rightarrow> Inl e
           | Inr neighbors \<Rightarrow>
               (case visit_neighbors neighbors (visited, rest) of
                  (visited', queue') \<Rightarrow> bfs_component g queue' visited' (component @ [v]))))"
  by pat_completeness auto
termination
proof (relation "inv_image (less_than <*lex*> less_than)
    (\<lambda>(g, queue, visited, component). (card (targets g - visited), length queue))")
  show "wf (inv_image (less_than <*lex*> less_than)
    (\<lambda>(g, queue, visited, component). (card (targets g - visited), length queue)))"
    by (intro wf_inv_image wf_lex_prod wf_less_than)
next
  fix g :: "'v graph" and queue visited component v rest neighbors visited' queue'
  assume a: "queue = v # rest" "get_neighbors g v = Inr neighbors"
    "(visited', queue') = visit_neighbors neighbors (visited, rest)"
  then have vn: "visit_neighbors neighbors (visited, rest) = (visited', queue')" by simp
  from visit_neighbors_grows[OF vn] obtain new where new:
    "visited \<subseteq> visited'" "visited' \<subseteq> visited \<union> fst ` set neighbors"
    "queue' = rest @ new" "set new = visited' - visited"
    by blast
  show "((g, queue', visited', component @ [v]), (g, queue, visited, component))
      \<in> inv_image (less_than <*lex*> less_than)
          (\<lambda>(g, queue, visited, component). (card (targets g - visited), length queue))"
  proof (cases "visited' = visited")
    case True
    with new a(1) show ?thesis by simp
  next
    case False
    have "visited' - visited \<subseteq> targets g"
      using new(2) get_neighbors_targets[OF a(2)] by blast
    from card_unvisited_less[OF new(1) this False] show ?thesis by simp
  qed
qed

text \<open>The \<^verbatim>\<open>for vertex in graph.vertices\<close> loop of \<^verbatim>\<open>connected_components\<close>.\<close>

fun components_loop ::
  "'v graph \<Rightarrow> 'v list \<Rightarrow> 'v set \<Rightarrow> 'v list list \<Rightarrow> error + 'v list list" where
  "components_loop g [] visited components = Inr components"
| "components_loop g (vertex # rest) visited components =
     (if vertex \<notin> visited
      then (case bfs_component g [vertex] (insert vertex visited) [] of
              Inl e \<Rightarrow> Inl e
            | Inr (visited', component) \<Rightarrow>
                components_loop g rest visited' (components @ [component]))
      else components_loop g rest visited components)"

definition connected_components :: "'v graph \<Rightarrow> error + 'v list list" where
  "connected_components g = components_loop g (vertices g) {} []"

section \<open>Minimum spanning trees (lib/tree.py)\<close>

subsection \<open>Union-find\<close>

record 'v union_find =
  parent :: "('v \<times> 'v) list"
  rank :: "('v \<times> nat) list"

definition UnionFind_init :: "'v list \<Rightarrow> 'v union_find" where
  "UnionFind_init vs =
     \<lparr>parent = fold (\<lambda>v d. AList.update v v d) vs [],
      rank = fold (\<lambda>v d. AList.update v 0 d) vs []\<rparr>"

text \<open>
  \<^verbatim>\<open>find\<close> recurses along the parent pointers and compresses the path on the way
  back.  On a parent dictionary with a cycle it would not return; not returning is the
  value \<open>None\<close>.  After the assignment \<^verbatim>\<open>parent[vertex] = root\<close> the final
  \<^verbatim>\<open>return self.parent[vertex]\<close> reads \<open>root\<close> back.
\<close>

partial_function (option) UnionFind_find ::
  "'v union_find \<Rightarrow> 'v \<Rightarrow> (error + 'v \<times> 'v union_find) option" where
  "UnionFind_find uf vertex =
     (case map_of (parent uf) vertex of
        None \<Rightarrow> Some (Inl KeyError)
      | Some p \<Rightarrow>
          if p \<noteq> vertex
          then Option.bind (UnionFind_find uf p)
                 (\<lambda>r. case r of
                        Inl e \<Rightarrow> Some (Inl e)
                      | Inr (root, uf') \<Rightarrow>
                          Some (Inr (root, uf'\<lparr>parent := AList.update vertex root (parent uf')\<rparr>)))
          else Some (Inr (p, uf)))"

declare UnionFind_find.simps [code]

definition UnionFind_union ::
  "'v union_find \<Rightarrow> 'v \<Rightarrow> 'v \<Rightarrow> (error + bool \<times> 'v union_find) option" where
  "UnionFind_union uf vertex1 vertex2 =
     Option.bind (UnionFind_find uf vertex1)
       (\<lambda>r1. case r1 of
          Inl e \<Rightarrow> Some (Inl e)
        | Inr (root1, uf1) \<Rightarrow>
     Option.bind (UnionFind_find uf1 vertex2)
       (\<lambda>r2. case r2 of
          Inl e \<Rightarrow> Some (Inl e)
        | Inr (root2, uf2) \<Rightarrow>
            Some (if root1 = root2 then Inr (False, uf2)
                  else (case map_of (rank uf2) root1 of
                          None \<Rightarrow> Inl KeyError
                        | Some k1 \<Rightarrow>
                       (case map_of (rank uf2) root2 of
                          None \<Rightarrow> Inl KeyError
                        | Some k2 \<Rightarrow>
                            if k1 < k2
                            then Inr (True, uf2\<lparr>parent := AList.update root1 root2 (parent uf2)\<rparr>)
                            else if k1 > k2
                            then Inr (True, uf2\<lparr>parent := AList.update root2 root1 (parent uf2)\<rparr>)
                            else Inr (True, uf2\<lparr>parent := AList.update root2 root1 (parent uf2),
                                                rank := AList.update root1 (k1 + 1) (rank uf2)\<rparr>))))))"

subsection \<open>Kruskal\<close>

text \<open>\<^verbatim>\<open>tuple(sorted([vertex, neighbor]))\<close>\<close>

definition sorted_pair :: "'v::linorder \<Rightarrow> 'v \<Rightarrow> 'v \<times> 'v" where
  "sorted_pair vertex neighbor = (if neighbor < vertex then (neighbor, vertex) else (vertex, neighbor))"

text \<open>The inner loop of the edge collection: one vertex's adjacency list.\<close>

fun collect_neighbors ::
  "'v::linorder \<Rightarrow> ('v \<times> int) list \<Rightarrow> (int \<times> 'v \<times> 'v) list \<times> ('v \<times> 'v) set \<Rightarrow>
     (int \<times> 'v \<times> 'v) list \<times> ('v \<times> 'v) set" where
  "collect_neighbors vertex [] (edges, seen) = (edges, seen)"
| "collect_neighbors vertex ((neighbor, weight) # rest) (edges, seen) =
     (if sorted_pair vertex neighbor \<notin> seen
      then collect_neighbors vertex rest
             (edges @ [(weight, vertex, neighbor)], insert (sorted_pair vertex neighbor) seen)
      else collect_neighbors vertex rest (edges, seen))"

text \<open>The outer loop: every vertex, in the order of the vertex list.\<close>

fun collect_edges ::
  "'v::linorder graph \<Rightarrow> 'v list \<Rightarrow> (int \<times> 'v \<times> 'v) list \<times> ('v \<times> 'v) set \<Rightarrow>
     error + (int \<times> 'v \<times> 'v) list \<times> ('v \<times> 'v) set" where
  "collect_edges g [] acc = Inr acc"
| "collect_edges g (vertex # rest) acc =
     (case get_neighbors g vertex of
        Inl e \<Rightarrow> Inl e
      | Inr neighbors \<Rightarrow> collect_edges g rest (collect_neighbors vertex neighbors acc))"

text \<open>
  The loop over the sorted edges.  It stops early once \<open>V - 1\<close> edges are accepted;
  \<^verbatim>\<open>len(graph.vertices) - 1\<close> is integer arithmetic (\<open>-1\<close> on an empty graph).
\<close>

fun kruskal_loop ::
  "'v graph \<Rightarrow> (int \<times> 'v \<times> 'v) list \<Rightarrow> 'v union_find \<Rightarrow> ('v \<times> 'v \<times> int) list \<Rightarrow> int \<Rightarrow>
     (error + ('v \<times> 'v \<times> int) list \<times> int) option" where
  "kruskal_loop g [] uf mst_edges total_weight = Some (Inr (mst_edges, total_weight))"
| "kruskal_loop g ((weight, u, v) # rest) uf mst_edges total_weight =
     (case UnionFind_union uf u v of
        None \<Rightarrow> None
      | Some (Inl e) \<Rightarrow> Some (Inl e)
      | Some (Inr (merged, uf')) \<Rightarrow>
          if merged
          then (if int (length (mst_edges @ [(u, v, weight)])) = int (length (vertices g)) - 1
                then Some (Inr (mst_edges @ [(u, v, weight)], total_weight + weight))
                else kruskal_loop g rest uf' (mst_edges @ [(u, v, weight)]) (total_weight + weight))
          else kruskal_loop g rest uf' mst_edges total_weight)"

definition kruskal ::
  "'v::linorder graph \<Rightarrow> (error + ('v \<times> 'v \<times> int) list \<times> int) option" where
  "kruskal g =
     (if is_directed g then Some (Inl WrongGraphKind)
      else (case collect_edges g (vertices g) ([], {}) of
              Inl e \<Rightarrow> Some (Inl e)
            | Inr (edges, seen) \<Rightarrow>
                kruskal_loop g (sort edges) (UnionFind_init (vertices g)) [] 0))"

subsection \<open>Prim\<close>

text \<open>The edges a newly visited vertex offers: those to vertices not yet visited.\<close>

definition frontier :: "'v \<Rightarrow> ('v \<times> int) list \<Rightarrow> 'v set \<Rightarrow> (int \<times> 'v \<times> 'v) list" where
  "frontier v neighbors visited =
     map (\<lambda>(neighbor, w). (w, v, neighbor)) (filter (\<lambda>(neighbor, w). neighbor \<notin> visited) neighbors)"

lemma sort_Cons_parts:
  assumes "sort xs = e # rest"
  shows "set rest \<subseteq> set xs \<and> e \<in> set xs \<and> length rest < length xs"
proof -
  have "set (sort xs) = set xs" "length (sort xs) = length xs" by simp_all
  with assms show ?thesis by auto
qed

lemma frontier_targets:
  "get_neighbors g v = Inr ns \<Longrightarrow> (w, u, x) \<in> set (frontier v ns visited) \<Longrightarrow> x \<in> targets g"
  using get_neighbors_targets[of g v ns] by (force simp: frontier_def)

text \<open>
  The \<^verbatim>\<open>while\<close> loop of \<^verbatim>\<open>prim\<close>: sort the available edges, pop the first, skip
  it when its destination has been visited meanwhile.  A round either visits a new
  vertex or shortens the list.
\<close>

definition prim_measure :: "'v graph \<Rightarrow> (int \<times> 'v \<times> 'v) list \<Rightarrow> 'v set \<Rightarrow> nat \<times> nat" where
  "prim_measure g available_edges visited =
     (card ((targets g \<union> (snd \<circ> snd) ` set available_edges) - visited), length available_edges)"

lemma prim_measure_skip:
  assumes "sort available_edges = (weight, u, v) # rest" "v \<in> visited"
  shows "(prim_measure g rest visited, prim_measure g available_edges visited)
           \<in> less_than <*lex*> less_than"
proof -
  from sort_Cons_parts[OF assms(1)] have r: "set rest \<subseteq> set available_edges"
    "length rest < length available_edges"
    by simp_all
  have "finite ((targets g \<union> (snd \<circ> snd) ` set available_edges) - visited)" by simp
  moreover have "(targets g \<union> (snd \<circ> snd) ` set rest) - visited
      \<subseteq> (targets g \<union> (snd \<circ> snd) ` set available_edges) - visited"
    using r(1) by blast
  ultimately have "card ((targets g \<union> (snd \<circ> snd) ` set rest) - visited)
      \<le> card ((targets g \<union> (snd \<circ> snd) ` set available_edges) - visited)"
    by (rule card_mono)
  with r(2) show ?thesis by (auto simp: prim_measure_def)
qed

lemma prim_measure_visit:
  assumes "sort available_edges = (weight, u, v) # rest" "v \<notin> visited"
    "get_neighbors g v = Inr neighbors"
  shows "(prim_measure g (rest @ frontier v neighbors (insert v visited)) (insert v visited),
          prim_measure g available_edges visited) \<in> less_than <*lex*> less_than"
proof -
  from sort_Cons_parts[OF assms(1)] have r: "set rest \<subseteq> set available_edges"
    "(weight, u, v) \<in> set available_edges"
    by simp_all
  let ?U = "targets g \<union> (snd \<circ> snd) ` set available_edges"
  let ?U' = "targets g \<union> (snd \<circ> snd) ` set (rest @ frontier v neighbors (insert v visited))"
  have sub: "?U' \<subseteq> ?U"
    using r(1) frontier_targets[OF assms(3)] by fastforce
  have v: "v \<in> ?U - visited"
    using r(2) assms(2) by force
  have "?U' - insert v visited \<subset> ?U - visited"
    using sub v by blast
  then have "card (?U' - insert v visited) < card (?U - visited)"
    by (intro psubset_card_mono) simp_all
  then show ?thesis by (simp add: prim_measure_def)
qed

function prim_loop ::
  "'v::linorder graph \<Rightarrow> (int \<times> 'v \<times> 'v) list \<Rightarrow> 'v set \<Rightarrow> ('v \<times> 'v \<times> int) list \<Rightarrow> int \<Rightarrow>
     error + ('v \<times> 'v \<times> int) list \<times> int" where
  "prim_loop g available_edges visited mst_edges total_weight =
     (if available_edges \<noteq> [] \<and> card visited < length (vertices g)
      then (case sort available_edges of
              [] \<Rightarrow> Inl IndexError
            | (weight, u, v) # rest \<Rightarrow>
                if v \<in> visited then prim_loop g rest visited mst_edges total_weight
                else (case get_neighbors g v of
                        Inl e \<Rightarrow> Inl e
                      | Inr neighbors \<Rightarrow>
                          prim_loop g (rest @ frontier v neighbors (insert v visited))
                            (insert v visited) (mst_edges @ [(u, v, weight)])
                            (total_weight + weight)))
      else Inr (mst_edges, total_weight))"
  by pat_completeness auto
termination
  by (relation "inv_image (less_than <*lex*> less_than)
        (\<lambda>(g, available_edges, visited, mst_edges, total_weight).
           prim_measure g available_edges visited)")
    (auto intro: prim_measure_skip prim_measure_visit simp del: in_lex_prod)

text \<open>
  \<^verbatim>\<open>prim(graph, start_vertex=None)\<close>: the default start is \<^verbatim>\<open>graph.vertices[0]\<close>,
  an \<^verbatim>\<open>IndexError\<close> on a graph with no vertex.
\<close>

definition prim ::
  "'v::linorder graph \<Rightarrow> 'v option \<Rightarrow> error + ('v \<times> 'v \<times> int) list \<times> int" where
  "prim g start_vertex =
     (if is_directed g then Inl WrongGraphKind
      else (case (case start_vertex of
                    None \<Rightarrow> (case vertices g of [] \<Rightarrow> Inl IndexError | v # _ \<Rightarrow> Inr v)
                  | Some s \<Rightarrow> Inr s) of
              Inl e \<Rightarrow> Inl e
            | Inr start \<Rightarrow>
                if start \<notin> set (vertices g) then Inl UnknownVertex
                else (case get_neighbors g start of
                        Inl e \<Rightarrow> Inl e
                      | Inr neighbors \<Rightarrow>
                          prim_loop g (frontier start neighbors {start}) {start} [] 0)))"

section \<open>Concrete scenarios\<close>

text \<open>Building a graph and then running an algorithm on it, stopping at the first error.\<close>

definition on_built :: "error + 'v graph \<Rightarrow> ('v graph \<Rightarrow> 'a option) \<Rightarrow> 'a option" where
  "on_built r f = (case r of Inl e \<Rightarrow> None | Inr g \<Rightarrow> f g)"

lemma on_built_Some:
  "on_built (run_calls cs (Graph_init vs dr wt)) f = Some y \<longleftrightarrow> (\<exists>g. built vs dr wt cs g \<and> f g = Some y)"
  by (auto simp: on_built_def built_def split: sum.splits)

text \<open>
  Claim C8.  On the undirected graph built by adding the edges (A,B), (B,C), (D,E),
  (E,F), (F,D) and the self-loop (G,G), whether the constructor gets no vertex or the
  vertices A to G, \<^verbatim>\<open>connected_components\<close> returns exactly three components, with
  the member sets {A,B,C}, {D,E,F} and {G}.
\<close>

theorem connected_components_scenario:
  "(\<exists>g. built [] False False
          [AddEdge ''A'' ''B'' 1, AddEdge ''B'' ''C'' 1, AddEdge ''D'' ''E'' 1,
           AddEdge ''E'' ''F'' 1, AddEdge ''F'' ''D'' 1, AddEdge ''G'' ''G'' 1] g \<and>
        connected_components g = Inr [[''A'', ''B'', ''C''], [''D'', ''E'', ''F''], [''G'']]) \<and>
   (\<exists>g. built [''A'', ''B'', ''C'', ''D'', ''E'', ''F'', ''G''] False False
          [AddEdge ''A'' ''B'' 1, AddEdge ''B'' ''C'' 1, AddEdge ''D'' ''E'' 1,
           AddEdge ''E'' ''F'' 1, AddEdge ''F'' ''D'' 1, AddEdge ''G'' ''G'' 1] g \<and>
        connected_components g = Inr [[''A'', ''B'', ''C''], [''D'', ''E'', ''F''], [''G'']]) \<and>
   length [[''A'', ''B'', ''C''], [''D'', ''E'', ''F''], [''G'']] = 3 \<and>
   map set [[''A'', ''B'', ''C''], [''D'', ''E'', ''F''], [''G'']] =
     [{''A'', ''B'', ''C''}, {''D'', ''E'', ''F''}, {''G''}]"
proof -
  let ?cs = "[AddEdge ''A'' ''B'' 1, AddEdge ''B'' ''C'' 1, AddEdge ''D'' ''E'' 1,
           AddEdge ''E'' ''F'' 1, AddEdge ''F'' ''D'' 1, AddEdge ''G'' ''G'' 1]"
  have "on_built (run_calls ?cs (Graph_init [] False False)) (\<lambda>g. Some (connected_components g))
      = Some (Inr [[''A'', ''B'', ''C''], [''D'', ''E'', ''F''], [''G'']])"
    by code_simp
  then have 1: "\<exists>g. built [] False False ?cs g \<and>
      connected_components g = Inr [[''A'', ''B'', ''C''], [''D'', ''E'', ''F''], [''G'']]"
    unfolding on_built_Some by auto
  have "on_built (run_calls ?cs (Graph_init [''A'', ''B'', ''C'', ''D'', ''E'', ''F'', ''G''] False False))
        (\<lambda>g. Some (connected_components g))
      = Some (Inr [[''A'', ''B'', ''C''], [''D'', ''E'', ''F''], [''G'']])"
    by code_simp
  then have 2: "\<exists>g. built [''A'', ''B'', ''C'', ''D'', ''E'', ''F'', ''G''] False False ?cs g \<and>
      connected_components g = Inr [[''A'', ''B'', ''C''], [''D'', ''E'', ''F''], [''G'']]"
    unfolding on_built_Some by auto
  from 1 2 show ?thesis by simp
qed

text \<open>
  Claim C7, as amended.  On the undirected weighted graph built by adding the edges
  (A,B,4), (A,C,2), (B,C,1), (B,D,5), (C,D,8), (C,E,10), (D,E,2) in that order,
  \<^verbatim>\<open>kruskal\<close> returns the edges B-C:1, A-C:2, D-E:2, B-D:5 and the total weight 10.
  (A-B:4 closes a cycle with B-C and A-C, so it is rejected; 10 is the weight of the
  minimum spanning tree.)
\<close>

theorem kruskal_scenario_weight:
  "\<exists>g. built [] False True
         [AddEdge ''A'' ''B'' 4, AddEdge ''A'' ''C'' 2, AddEdge ''B'' ''C'' 1, AddEdge ''B'' ''D'' 5,
          AddEdge ''C'' ''D'' 8, AddEdge ''C'' ''E'' 10, AddEdge ''D'' ''E'' 2] g \<and>
       kruskal g = Some (Inr ([(''B'', ''C'', 1), (''A'', ''C'', 2), (''D'', ''E'', 2), (''B'', ''D'', 5)], 10))"
proof -
  have "on_built (run_calls
         [AddEdge ''A'' ''B'' 4, AddEdge ''A'' ''C'' 2, AddEdge ''B'' ''C'' 1, AddEdge ''B'' ''D'' 5,
          AddEdge ''C'' ''D'' 8, AddEdge ''C'' ''E'' 10, AddEdge ''D'' ''E'' 2]
         (Graph_init [] False True)) kruskal
      = Some (Inr ([(''B'', ''C'', 1), (''A'', ''C'', 2), (''D'', ''E'', 2), (''B'', ''D'', 5)], 10))"
    by code_simp
  then show ?thesis unfolding on_built_Some by auto
qed

text \<open>Claim C7 as stated (total weight 9) fails on the code: the total is not 9.\<close>

theorem kruskal_scenario_weight_not_9:
  "\<not> (\<exists>g edges. built [] False True
         [AddEdge ''A'' ''B'' 4, AddEdge ''A'' ''C'' 2, AddEdge ''B'' ''C'' 1, AddEdge ''B'' ''D'' 5,
          AddEdge ''C'' ''D'' 8, AddEdge ''C'' ''E'' 10, AddEdge ''D'' ''E'' 2] g \<and>
       kruskal g = Some (Inr (edges, 9)))"
proof
  let ?cs = "[AddEdge ''A'' ''B'' 4, AddEdge ''A'' ''C'' 2, AddEdge ''B'' ''C'' 1, AddEdge ''B'' ''D'' 5,
          AddEdge ''C'' ''D'' 8, AddEdge ''C'' ''E'' 10, AddEdge ''D'' ''E'' 2]"
  assume "\<exists>g edges. built [] False True ?cs g \<and> kruskal g = Some (Inr (edges, 9))"
  then obtain g edges where g: "built [] False True ?cs g" "kruskal g = Some (Inr (edges, 9))"
    by blast
  have "on_built (run_calls ?cs (Graph_init [] False True)) kruskal
      = Some (Inr ([(''B'', ''C'', 1), (''A'', ''C'', 2), (''D'', ''E'', 2), (''B'', ''D'', 5)], 10))"
    by code_simp
  with g(1) have "kruskal g = Some (Inr ([(''B'', ''C'', 1), (''A'', ''C'', 2), (''D'', ''E'', 2), (''B'', ''D'', 5)], 10))"
    by (simp add: on_built_def built_def)
  with g(2) show False by simp
qed

text \<open>
  Claim C1 fails on a graph with parallel edges.  After \<^verbatim>\<open>add_edge('A','B',5)\<close> and
  \<^verbatim>\<open>add_edge('A','B',1)\<close> on a weighted undirected graph, \<^verbatim>\<open>kruskal\<close> keeps only the
  first entry for the endpoint pair and returns the total weight 5, while \<^verbatim>\<open>prim\<close>
  takes the lighter edge and returns 1.
\<close>

theorem kruskal_prim_parallel_edges:
  "\<exists>g. built [] False True [AddEdge ''A'' ''B'' 5, AddEdge ''A'' ''B'' 1] g \<and>
       kruskal g = Some (Inr ([(''A'', ''B'', 5)], 5)) \<and>
       prim g None = Inr ([(''A'', ''B'', 1)], 1)"
proof -
  have "on_built (run_calls [AddEdge ''A'' ''B'' 5, AddEdge ''A'' ''B'' 1] (Graph_init [] False True))
          (\<lambda>g. Some (kruskal g, prim g None))
      = Some (Some (Inr ([(''A'', ''B'', 5)], 5)), Inr ([(''A'', ''B'', 1)], 1))"
    by code_simp
  then show ?thesis unfolding on_built_Some by auto
qed

section \<open>Depth-first cycle detection (lib/traversal.py)\<close>

text \<open>
  \<^verbatim>\<open>has_cycle_util\<close> is recursive and threads the two sets \<^verbatim>\<open>visited\<close> and
  \<^verbatim>\<open>rec_stack\<close> through its calls.  The first argument bounds the depth of the
  recursion, as the interpreter's recursion limit does; running out of depth is the
  value \<open>None\<close>.  \<open>has_cycle_neighbors\<close> is the \<^verbatim>\<open>for\<close> loop over the adjacency list
  together with the two statements after it; \<^verbatim>\<open>rec_stack.remove\<close> raises on a missing
  element.
\<close>

function (sequential) has_cycle_util ::
    "nat \<Rightarrow> 'v graph \<Rightarrow> 'v \<Rightarrow> 'v set \<times> 'v set \<Rightarrow> (error + bool \<times> 'v set \<times> 'v set) option"
  and has_cycle_neighbors ::
    "nat \<Rightarrow> 'v graph \<Rightarrow> 'v \<Rightarrow> ('v \<times> int) list \<Rightarrow> 'v set \<times> 'v set \<Rightarrow>
       (error + bool \<times> 'v set \<times> 'v set) option" where
  "has_cycle_util 0 g vertex (visited, rec_stack) = None"
| "has_cycle_util (Suc d) g vertex (visited, rec_stack) =
     (case get_neighbors g vertex of
        Inl e \<Rightarrow> Some (Inl e)
      | Inr neighbors \<Rightarrow>
          has_cycle_neighbors d g vertex neighbors (insert vertex visited, insert vertex rec_stack))"
| "has_cycle_neighbors d g vertex [] (visited, rec_stack) =
     (if vertex \<in> rec_stack then Some (Inr (False, visited, rec_stack - {vertex}))
      else Some (Inl KeyError))"
| "has_cycle_neighbors d g vertex ((neighbor, w) # rest) (visited, rec_stack) =
     (if neighbor \<notin> visited
      then (case has_cycle_util d g neighbor (visited, rec_stack) of
              None \<Rightarrow> None
            | Some (Inl e) \<Rightarrow> Some (Inl e)
            | Some (Inr (found, st)) \<Rightarrow>
                if found then Some (Inr (True, st))
                else has_cycle_neighbors d g vertex rest st)
      else if neighbor \<in> rec_stack then Some (Inr (True, visited, rec_stack))
      else has_cycle_neighbors d g vertex rest (visited, rec_stack))"
  by pat_completeness auto
termination
  by (relation "inv_image (less_than <*lex*> less_than)
        (\<lambda>x. case x of
               Inl (d, g, vertex, st) \<Rightarrow> (2 * d, 0)
             | Inr (d, g, vertex, neighbors, st) \<Rightarrow> (2 * d + 1, length neighbors))")
    auto

text \<open>The \<^verbatim>\<open>for vertex in graph.vertices\<close> loop of \<^verbatim>\<open>has_cycle\<close>.\<close>

fun has_cycle_loop ::
  "nat \<Rightarrow> 'v graph \<Rightarrow> 'v list \<Rightarrow> 'v set \<times> 'v set \<Rightarrow> (error + bool) option" where
  "has_cycle_loop d g [] st = Some (Inr False)"
| "has_cycle_loop d g (vertex # rest) (visited, rec_stack) =
     (if vertex \<notin> visited
      then (case has_cycle_util d g vertex (visited, rec_stack) of
              None \<Rightarrow> None
            | Some (Inl e) \<Rightarrow> Some (Inl e)
            | Some (Inr (found, st)) \<Rightarrow>
                if found then Some (Inr True) else has_cycle_loop d g rest st)
      else has_cycle_loop d g rest (visited, rec_stack))"

definition has_cycle :: "nat \<Rightarrow> 'v graph \<Rightarrow> (error + bool) option" where
  "has_cycle d g = has_cycle_loop d g (vertices g) ({}, {})"

subsection \<open>An undirected edge is reported as a cycle\<close>

lemma wf_get_neighbors:
  "well_formed g \<Longrightarrow> v \<in> set (vertices g) \<Longrightarrow> get_neighbors g v = Inr (neighbors_of g v)"
  unfolding well_formed_def get_neighbors_def neighbors_of_def
  by (cases "map_of (adj_list g) v") (auto simp: map_of_eq_None_iff)

lemma wf_neighbors_in:
  assumes "well_formed g" "(x, w) \<in> set (neighbors_of g v)"
  shows "x \<in> set (vertices g)" "v \<in> set (vertices g)"
proof -
  from assms(2) obtain l where l: "map_of (adj_list g) v = Some l" "(x, w) \<in> set l"
    by (cases "map_of (adj_list g) v") (auto simp: neighbors_of_def)
  then have m: "(v, l) \<in> set (adj_list g)" by (simp add: map_of_SomeD)
  from well_formed_entry[OF assms(1) m l(2)] show "x \<in> set (vertices g)" .
  from m have "v \<in> fst ` set (adj_list g)" by force
  with assms(1) show "v \<in> set (vertices g)" by (simp add: well_formed_def)
qed

lemma card_unvisited_insert:
  assumes "v \<in> set vs" "v \<notin> visited" "card (set vs - visited) \<le> Suc d"
  shows "card (set vs - insert v visited) \<le> d"
proof -
  have "set vs - insert v visited = (set vs - visited) - {v}" by blast
  moreover have "v \<in> set vs - visited" using assms by simp
  ultimately have "card (set vs - insert v visited) = card (set vs - visited) - 1"
    by simp
  with assms(3) show ?thesis by simp
qed

lemma card_unvisited_mono:
  assumes "visited \<subseteq> visited'" "card (set vs - visited) \<le> d"
  shows "card (set vs - visited') \<le> d"
proof -
  have "card (set vs - visited') \<le> card (set vs - visited)"
    using assms(1) by (intro card_mono) auto
  with assms(2) show ?thesis by simp
qed

text \<open>
  What a call of \<^verbatim>\<open>has_cycle_util\<close> with enough depth does, on a vertex not yet
  visited and with the recursion stack inside the visited set: it returns, the visited
  set grows, a \<^verbatim>\<open>False\<close> leaves the recursion stack as it was, and an adjacency entry
  that leads into the recursion stack (or back to the vertex) makes the answer
  \<^verbatim>\<open>True\<close>.
\<close>

definition util_returns :: "nat \<Rightarrow> 'v graph \<Rightarrow> bool" where
  "util_returns d g \<longleftrightarrow>
     (\<forall>vertex visited rec_stack.
        vertex \<in> set (vertices g) \<longrightarrow> vertex \<notin> visited \<longrightarrow> rec_stack \<subseteq> visited \<longrightarrow>
        card (set (vertices g) - visited) \<le> d \<longrightarrow>
        (\<exists>found visited' rec_stack'.
           has_cycle_util d g vertex (visited, rec_stack) = Some (Inr (found, visited', rec_stack')) \<and>
           visited \<subseteq> visited' \<and> vertex \<in> visited' \<and>
           (\<not> found \<longrightarrow> rec_stack' = rec_stack) \<and>
           ((\<exists>r \<in> fst ` set (neighbors_of g vertex). r \<in> insert vertex rec_stack) \<longrightarrow> found)))"

lemma has_cycle_neighbors_returns:
  assumes wf: "well_formed g" and IH: "util_returns d g"
    and "fst ` set ns \<subseteq> set (vertices g)" "vertex \<in> rec_stack" "rec_stack \<subseteq> visited"
    "card (set (vertices g) - visited) \<le> d"
  shows "\<exists>found visited' rec_stack'.
           has_cycle_neighbors d g vertex ns (visited, rec_stack) =
             Some (Inr (found, visited', rec_stack')) \<and>
           visited \<subseteq> visited' \<and>
           (\<not> found \<longrightarrow> rec_stack' = rec_stack - {vertex}) \<and>
           ((\<exists>r \<in> fst ` set ns. r \<in> rec_stack) \<longrightarrow> found)"
  using assms(3-)
proof (induction ns arbitrary: visited)
  case Nil
  then show ?case by auto
next
  case (Cons e ns)
  obtain x w where e: "e = (x, w)" by (cases e)
  from Cons.prems(1) e have xV: "x \<in> set (vertices g)" and nsV: "fst ` set ns \<subseteq> set (vertices g)"
    by auto
  show ?case
  proof (cases "x \<in> visited")
    case True
    show ?thesis
    proof (cases "x \<in> rec_stack")
      case True
      with \<open>x \<in> visited\<close> e show ?thesis by auto
    next
      case False
      from Cons.IH[OF nsV Cons.prems(2,3,4)] obtain found visited' rec_stack' where r:
        "has_cycle_neighbors d g vertex ns (visited, rec_stack) = Some (Inr (found, visited', rec_stack'))"
        "visited \<subseteq> visited'" "\<not> found \<longrightarrow> rec_stack' = rec_stack - {vertex}"
        "(\<exists>r \<in> fst ` set ns. r \<in> rec_stack) \<longrightarrow> found"
        by blast
      have "(\<exists>r \<in> fst ` set (e # ns). r \<in> rec_stack) \<longrightarrow> found"
        using r(4) False e by auto
      with r(1,2,3) True False e show ?thesis by auto
    qed
  next
    case False
    from IH[unfolded util_returns_def, rule_format, OF xV False Cons.prems(3,4)]
    obtain f1 v1 r1 where u:
      "has_cycle_util d g x (visited, rec_stack) = Some (Inr (f1, v1, r1))"
      "visited \<subseteq> v1" "\<not> f1 \<longrightarrow> r1 = rec_stack"
      by blast
    show ?thesis
    proof (cases f1)
      case True
      with u False e show ?thesis by auto
    next
      case f: False
      with u(3) have r1: "r1 = rec_stack" by simp
      have "rec_stack \<subseteq> v1" using Cons.prems(3) u(2) by blast
      from Cons.IH[OF nsV Cons.prems(2) this card_unvisited_mono[OF u(2) Cons.prems(4)]]
      obtain found visited' rec_stack' where r:
        "has_cycle_neighbors d g vertex ns (v1, rec_stack) = Some (Inr (found, visited', rec_stack'))"
        "v1 \<subseteq> visited'" "\<not> found \<longrightarrow> rec_stack' = rec_stack - {vertex}"
        "(\<exists>r \<in> fst ` set ns. r \<in> rec_stack) \<longrightarrow> found"
        by blast
      have "x \<notin> rec_stack" using False Cons.prems(3) by blast
      then have "(\<exists>r \<in> fst ` set (e # ns). r \<in> rec_stack) \<longrightarrow> found"
        using r(4) e by auto
      moreover have "visited \<subseteq> visited'" using u(2) r(2) by blast
      ultimately show ?thesis
        using u(1) f r1 r(1,3) False e by auto
    qed
  qed
qed

lemma has_cycle_util_returns: "well_formed g \<Longrightarrow> util_returns d g"
proof (induction d)
  case 0
  show ?case
    unfolding util_returns_def
  proof (intro allI impI)
    fix vertex :: 'a and visited rec_stack :: "'a set"
    assume "vertex \<in> set (vertices g)" "vertex \<notin> visited" "card (set (vertices g) - visited) \<le> 0"
    then have "vertex \<in> set (vertices g) - visited" "set (vertices g) - visited = {}"
      by simp_all
    then show "\<exists>found visited' rec_stack'.
           has_cycle_util 0 g vertex (visited, rec_stack) = Some (Inr (found, visited', rec_stack')) \<and>
           visited \<subseteq> visited' \<and> vertex \<in> visited' \<and>
           (\<not> found \<longrightarrow> rec_stack' = rec_stack) \<and>
           ((\<exists>r \<in> fst ` set (neighbors_of g vertex). r \<in> insert vertex rec_stack) \<longrightarrow> found)"
      by blast
  qed
next
  case (Suc d)
  note wf = Suc.prems
  have IH: "util_returns d g" using Suc by simp
  show ?case
    unfolding util_returns_def
  proof (intro allI impI)
    fix vertex :: 'a and visited rec_stack :: "'a set"
    assume a: "vertex \<in> set (vertices g)" "vertex \<notin> visited" "rec_stack \<subseteq> visited"
      "card (set (vertices g) - visited) \<le> Suc d"
    have gn: "get_neighbors g vertex = Inr (neighbors_of g vertex)"
      using wf a(1) by (rule wf_get_neighbors)
    have nsV: "fst ` set (neighbors_of g vertex) \<subseteq> set (vertices g)"
      using wf_neighbors_in(1)[OF wf] by fastforce
    have "insert vertex rec_stack \<subseteq> insert vertex visited" using a(3) by blast
    from has_cycle_neighbors_returns[OF wf IH nsV _ this card_unvisited_insert[OF a(1,2,4)], of vertex]
    obtain found visited' rec_stack' where r:
      "has_cycle_neighbors d g vertex (neighbors_of g vertex)
         (insert vertex visited, insert vertex rec_stack) = Some (Inr (found, visited', rec_stack'))"
      "insert vertex visited \<subseteq> visited'"
      "\<not> found \<longrightarrow> rec_stack' = insert vertex rec_stack - {vertex}"
      "(\<exists>r \<in> fst ` set (neighbors_of g vertex). r \<in> insert vertex rec_stack) \<longrightarrow> found"
      by blast
    have "vertex \<notin> rec_stack" using a(2,3) by blast
    then have "insert vertex rec_stack - {vertex} = rec_stack" by blast
    with r show "\<exists>found visited' rec_stack'.
           has_cycle_util (Suc d) g vertex (visited, rec_stack) = Some (Inr (found, visited', rec_stack')) \<and>
           visited \<subseteq> visited' \<and> vertex \<in> visited' \<and>
           (\<not> found \<longrightarrow> rec_stack' = rec_stack) \<and>
           ((\<exists>r \<in> fst ` set (neighbors_of g vertex). r \<in> insert vertex rec_stack) \<longrightarrow> found)"
      by (simp add: gn)
  qed
qed

lemma built_symmetric:
  assumes "built vs False wt cs g" and "u \<noteq> v"
  shows "(v, w) \<in> set (neighbors_of g u) \<longleftrightarrow> (u, w) \<in> set (neighbors_of g v)"
proof (rule symmetric_run_calls[OF well_formed_init _ _ _ assms(2)])
  show "\<not> is_directed (Graph_init vs False wt)" by simp
  show "run_calls cs (Graph_init vs False wt) = Inr g"
    using assms(1) by (simp add: built_def)
qed (simp add: neighbors_of_init)

lemma has_cycle_util_isolated:
  assumes "well_formed g" "x \<in> set (vertices g)" "neighbors_of g x = []"
  shows "has_cycle_util (Suc d) g x (visited, {}) = Some (Inr (False, insert x visited, {}))"
  using wf_get_neighbors[OF assms(1,2)] assms(3) by simp

lemma has_cycle_util_edge:
  assumes wf: "well_formed g"
    and sym: "\<And>u v w. u \<noteq> v \<Longrightarrow> (v, w) \<in> set (neighbors_of g u) \<Longrightarrow> (u, w) \<in> set (neighbors_of g v)"
    and d: "card (set (vertices g) - visited) \<le> d"
    and x: "x \<in> set (vertices g)" "x \<notin> visited" "neighbors_of g x \<noteq> []"
    and iso: "\<forall>y \<in> visited. neighbors_of g y = []"
  shows "\<exists>st. has_cycle_util d g x (visited, {}) = Some (Inr (True, st))"
proof -
  obtain n w tl where nb: "neighbors_of g x = (n, w) # tl"
    using x(3) by (cases "neighbors_of g x") auto
  show ?thesis
  proof (cases "n = x")
    case True
    from has_cycle_util_returns[OF wf, of d, unfolded util_returns_def, rule_format, OF x(1,2) _ d, of "{}"]
    obtain found visited' rec_stack' where r:
      "has_cycle_util d g x (visited, {}) = Some (Inr (found, visited', rec_stack'))"
      "(\<exists>r \<in> fst ` set (neighbors_of g x). r \<in> insert x {}) \<longrightarrow> found"
      by blast
    from nb True have "\<exists>r \<in> fst ` set (neighbors_of g x). r \<in> insert x {}" by simp
    with r(2) have found by simp
    with r(1) show ?thesis by simp
  next
    case False
    have ne: "x \<noteq> n" using False by simp
    have fw: "(n, w) \<in> set (neighbors_of g x)" using nb by simp
    have rev_entry: "(x, w) \<in> set (neighbors_of g n)"
      using ne fw by (rule sym)
    then have "neighbors_of g n \<noteq> []" by auto
    with iso have nv: "n \<notin> insert x visited" using False by auto
    have nV: "n \<in> set (vertices g)" using wf_neighbors_in(2)[OF wf rev_entry] .
    have "x \<in> set (vertices g) - visited" using x by simp
    then have "card (set (vertices g) - visited) \<noteq> 0" by auto
    with d obtain d' where d': "d = Suc d'" by (cases d) auto
    have c: "card (set (vertices g) - insert x visited) \<le> d'"
      using card_unvisited_insert[OF x(1,2)] d d' by simp
    have sub: "{x} \<subseteq> insert x visited" by simp
    from has_cycle_util_returns[OF wf, of d', unfolded util_returns_def, rule_format, OF nV nv sub c]
    obtain found visited' rec_stack' where r:
      "has_cycle_util d' g n (insert x visited, {x}) = Some (Inr (found, visited', rec_stack'))"
      "(\<exists>r \<in> fst ` set (neighbors_of g n). r \<in> insert n {x}) \<longrightarrow> found"
      by blast
    from rev_entry have "\<exists>r \<in> fst ` set (neighbors_of g n). r \<in> insert n {x}" by force
    with r(2) have found by simp
    with r(1) nv show ?thesis
      by (simp add: d' wf_get_neighbors[OF wf x(1)] nb)
  qed
qed

lemma has_cycle_loop_finds:
  assumes wf: "well_formed g"
    and sym: "\<And>u v w. u \<noteq> v \<Longrightarrow> (v, w) \<in> set (neighbors_of g u) \<Longrightarrow> (u, w) \<in> set (neighbors_of g v)"
    and d: "length (vertices g) \<le> d"
    and "set vs \<subseteq> set (vertices g)" "\<forall>y \<in> visited. neighbors_of g y = []"
      "\<exists>x \<in> set vs. neighbors_of g x \<noteq> []"
  shows "has_cycle_loop d g vs (visited, {}) = Some (Inr True)"
  using assms(4-)
proof (induction vs arbitrary: visited)
  case Nil
  then show ?case by simp
next
  case (Cons x vs)
  have xV: "x \<in> set (vertices g)" and vsV: "set vs \<subseteq> set (vertices g)"
    using Cons.prems(1) by simp_all
  have cd: "card (set (vertices g) - visited) \<le> d" for visited
  proof -
    have "card (set (vertices g) - visited) \<le> card (set (vertices g))"
      by (intro card_mono) auto
    also have "\<dots> \<le> length (vertices g)" by (rule card_length)
    finally show ?thesis using d by simp
  qed
  show ?case
  proof (cases "x \<in> visited")
    case True
    with Cons.prems(2) have "neighbors_of g x = []" by blast
    with Cons.prems(3) have "\<exists>y \<in> set vs. neighbors_of g y \<noteq> []" by simp
    from Cons.IH[OF vsV Cons.prems(2) this] True show ?thesis by simp
  next
    case False
    show ?thesis
    proof (cases "neighbors_of g x = []")
      case True
      with Cons.prems(3) have ex: "\<exists>y \<in> set vs. neighbors_of g y \<noteq> []" by simp
      from xV d obtain d' where d': "d = Suc d'" by (cases d) auto
      have iso: "\<forall>y \<in> insert x visited. neighbors_of g y = []"
        using Cons.prems(2) True by simp
      from Cons.IH[OF vsV iso ex] has_cycle_util_isolated[OF wf xV True, of d' visited] False
      show ?thesis by (simp add: d')
    next
      case nonempty: False
      from has_cycle_util_edge[OF wf sym cd xV False nonempty Cons.prems(2)]
      obtain st where "has_cycle_util d g x (visited, {}) = Some (Inr (True, st))"
        by blast
      with False show ?thesis by simp
    qed
  qed
qed

text \<open>
  Claim C6.  On every undirected graph built through the interface that has at least
  one edge (some adjacency list has an entry), \<^verbatim>\<open>has_cycle\<close> returns \<^verbatim>\<open>True\<close>, given a
  recursion depth of at least the number of vertices: the reverse entry of the first
  edge it follows leads back to a vertex on the recursion stack.
\<close>

theorem has_cycle_undirected_edge:
  assumes "built vs False wt cs g" and "(t, w) \<in> set (neighbors_of g s)"
    and "length (vertices g) \<le> d"
  shows "has_cycle d g = Some (Inr True)"
proof -
  from built_well_formed[OF assms(1)] have wf: "well_formed g" by simp
  have sV: "s \<in> set (vertices g)" using wf_neighbors_in(2)[OF wf assms(2)] .
  have "neighbors_of g s \<noteq> []" using assms(2) by auto
  with sV have ex: "\<exists>x \<in> set (vertices g). neighbors_of g x \<noteq> []" by blast
  have "has_cycle_loop d g (vertices g) ({}, {}) = Some (Inr True)"
  proof (rule has_cycle_loop_finds[OF wf _ assms(3) _ _ ex])
    fix u v w assume "u \<noteq> v" "(v, w) \<in> set (neighbors_of g u)"
    then show "(u, w) \<in> set (neighbors_of g v)"
      using built_symmetric[OF assms(1)] by blast
  qed simp_all
  then show ?thesis by (simp add: has_cycle_def)
qed

theorem has_cycle_undirected_edge_witness:
  "built [''A'', ''B'', ''C''] False False [AddEdge ''B'' ''C'' 1]
     \<lparr>vertices = [''A'', ''B'', ''C''], vertex_count = 3, is_directed = False, is_weighted = False,
      adj_list = [(''A'', []), (''B'', [(''C'', 1)]), (''C'', [(''B'', 1)])],
      adj_matrix = [[Num 0, Num 0, Num 0], [Num 0, Num 0, Num 1], [Num 0, Num 1, Num 0]]\<rparr> \<and>
   has_cycle 3
     \<lparr>vertices = [''A'', ''B'', ''C''], vertex_count = 3, is_directed = False, is_weighted = False,
      adj_list = [(''A'', []), (''B'', [(''C'', 1)]), (''C'', [(''B'', 1)])],
      adj_matrix = [[Num 0, Num 0, Num 0], [Num 0, Num 0, Num 1], [Num 0, Num 1, Num 0]]\<rparr>
     = Some (Inr True)"
proof -
  let ?g = "\<lparr>vertices = [''A'', ''B'', ''C''], vertex_count = 3, is_directed = False, is_weighted = False,
      adj_list = [(''A'', []), (''B'', [(''C'', 1)]), (''C'', [(''B'', 1)])],
      adj_matrix = [[Num 0, Num 0, Num 0], [Num 0, Num 0, Num 1], [Num 0, Num 1, Num 0]]\<rparr>"
  have b: "built [''A'', ''B'', ''C''] False False [AddEdge ''B'' ''C'' 1] ?g"
    by code_simp
  have e: "(''C'', 1) \<in> set (neighbors_of ?g ''B'')"
    by (simp add: neighbors_of_def)
  have d: "length (vertices ?g) \<le> 3"
    by simp
  from has_cycle_undirected_edge[OF b e d] b show ?thesis by (intro conjI)
qed

section \<open>Shortest paths by breadth-first search (lib/traversal.py)\<close>

text \<open>
  The inner loop of \<^verbatim>\<open>shortest_path\<close>: every neighbour not yet visited is marked
  and joins the queue with the path that reaches it.
\<close>

fun extend_paths ::
  "('v \<times> int) list \<Rightarrow> 'v list \<Rightarrow> 'v set \<times> ('v \<times> 'v list) list \<Rightarrow>
     'v set \<times> ('v \<times> 'v list) list" where
  "extend_paths [] path (visited, queue) = (visited, queue)"
| "extend_paths ((neighbor, _) # rest) path (visited, queue) =
     (if neighbor \<notin> visited
      then extend_paths rest path (insert neighbor visited, queue @ [(neighbor, path @ [neighbor])])
      else extend_paths rest path (visited, queue))"

text \<open>The vertices such a loop discovers, in the order of their first occurrence.\<close>

fun fresh :: "'v list \<Rightarrow> 'v set \<Rightarrow> 'v list" where
  "fresh [] visited = []"
| "fresh (x # xs) visited =
     (if x \<in> visited then fresh xs visited else x # fresh xs (insert x visited))"

lemma extend_paths_eq:
  "extend_paths ns path (visited, queue) =
     (visited \<union> set (fresh (map fst ns) visited),
      queue @ map (\<lambda>x. (x, path @ [x])) (fresh (map fst ns) visited))"
proof (induction ns arbitrary: visited queue)
  case Nil
  then show ?case by simp
next
  case (Cons e ns)
  obtain x w where e: "e = (x, w)" by (cases e)
  show ?case
    by (cases "x \<in> visited") (simp_all add: e Cons.IH)
qed

lemma set_fresh: "set (fresh xs visited) = set xs - visited"
  by (induction xs arbitrary: visited) auto

lemma distinct_fresh: "distinct (fresh xs visited)"
  by (induction xs arbitrary: visited) (auto simp: set_fresh)

text \<open>
  The \<^verbatim>\<open>while queue\<close> loop of \<^verbatim>\<open>shortest_path\<close>.  A round either marks a new
  vertex of the graph or shortens the queue.
\<close>

function shortest_path_loop ::
  "'v graph \<Rightarrow> 'v \<Rightarrow> ('v \<times> 'v list) list \<Rightarrow> 'v set \<Rightarrow> error + 'v list option" where
  "shortest_path_loop g end_vertex queue visited =
     (case queue of
        [] \<Rightarrow> Inr None
      | (vertex, path) # rest \<Rightarrow>
          if vertex = end_vertex then Inr (Some path)
          else (case get_neighbors g vertex of
                  Inl e \<Rightarrow> Inl e
                | Inr neighbors \<Rightarrow>
                    (case extend_paths neighbors path (visited, rest) of
                       (visited', queue') \<Rightarrow> shortest_path_loop g end_vertex queue' visited')))"
  by pat_completeness auto
termination
proof (relation "inv_image (less_than <*lex*> less_than)
    (\<lambda>(g, end_vertex, queue, visited). (card (targets g - visited), length queue))")
  show "wf (inv_image (less_than <*lex*> less_than)
    (\<lambda>(g, end_vertex, queue, visited). (card (targets g - visited), length queue)))"
    by (intro wf_inv_image wf_lex_prod wf_less_than)
next
  fix g :: "'v graph" and end_vertex queue visited e rest vertex path neighbors visited' queue'
  assume a: "queue = e # rest" "(vertex, path) = e" "vertex \<noteq> end_vertex"
    "get_neighbors g vertex = Inr neighbors"
    "(visited', queue') = extend_paths neighbors path (visited, rest)"
  let ?new = "fresh (map fst neighbors) visited"
  from a(5) have v': "visited' = visited \<union> set ?new"
    and q': "queue' = rest @ map (\<lambda>x. (x, path @ [x])) ?new"
    by (simp_all add: extend_paths_eq)
  show "((g, end_vertex, queue', visited'), (g, end_vertex, queue, visited))
      \<in> inv_image (less_than <*lex*> less_than)
          (\<lambda>(g, end_vertex, queue, visited). (card (targets g - visited), length queue))"
  proof (cases "?new = []")
    case True
    with v' q' a(1) show ?thesis by simp
  next
    case False
    then have "visited' \<noteq> visited"
      using v' set_fresh[of "map fst neighbors" visited] by (cases ?new) auto
    moreover have "visited' - visited \<subseteq> targets g"
      using v' set_fresh[of "map fst neighbors" visited] get_neighbors_targets[OF a(4)] by auto
    moreover have "visited \<subseteq> visited'" using v' by blast
    ultimately have "card (targets g - visited') < card (targets g - visited)"
      by (intro card_unvisited_less) simp_all
    then show ?thesis by simp
  qed
qed

definition shortest_path :: "'v graph \<Rightarrow> 'v \<Rightarrow> 'v \<Rightarrow> error + 'v list option" where
  "shortest_path g start end_vertex =
     (if start \<notin> set (vertices g) \<or> end_vertex \<notin> set (vertices g) then Inr None
      else shortest_path_loop g end_vertex [(start, [start])] {start})"

subsection \<open>Paths\<close>

text \<open>
  \<open>edge g u x\<close>: the adjacency list of \<open>u\<close> has an entry for \<open>x\<close>.  A walk is a
  non-empty vertex sequence along edges; a path from \<open>s\<close> to \<open>t\<close> is a walk that
  starts with \<open>s\<close> and ends with \<open>t\<close>.  Its edge count is its length less one.
\<close>

definition edge :: "'v graph \<Rightarrow> 'v \<Rightarrow> 'v \<Rightarrow> bool" where
  "edge g u x \<longleftrightarrow> x \<in> fst ` set (neighbors_of g u)"

fun walk :: "'v graph \<Rightarrow> 'v list \<Rightarrow> bool" where
  "walk g [] = False"
| "walk g [v] = True"
| "walk g (u # x # rest) = (edge g u x \<and> walk g (x # rest))"

definition path_from_to :: "'v graph \<Rightarrow> 'v list \<Rightarrow> 'v \<Rightarrow> 'v \<Rightarrow> bool" where
  "path_from_to g p s t \<longleftrightarrow> walk g p \<and> hd p = s \<and> last p = t"

lemma walk_nonempty: "walk g p \<Longrightarrow> p \<noteq> []"
  by (cases p) auto

lemma walk_snoc: "walk g (p @ [x]) \<longleftrightarrow> p = [] \<or> (walk g p \<and> edge g (last p) x)"
  by (induction g p rule: walk.induct) auto

lemma path_single: "path_from_to g [s] s s"
  by (simp add: path_from_to_def)

lemma path_snoc:
  assumes "path_from_to g p s v" "edge g v x"
  shows "path_from_to g (p @ [x]) s x"
proof -
  from assms(1) have "p \<noteq> []" by (auto simp: path_from_to_def dest: walk_nonempty)
  with assms show ?thesis by (simp add: path_from_to_def walk_snoc)
qed

lemma path_short:
  assumes "path_from_to g q s x" "length q \<le> 1"
  shows "x = s"
proof -
  from assms(1) have "q \<noteq> []" by (auto simp: path_from_to_def dest: walk_nonempty)
  with assms(2) obtain a where "q = [a]" by (cases q) auto
  with assms(1) show ?thesis by (auto simp: path_from_to_def)
qed

lemma path_decomp:
  assumes "path_from_to g q s x" "2 \<le> length q"
  shows "\<exists>q' y. q = q' @ [x] \<and> path_from_to g q' s y \<and> edge g y x"
proof -
  from assms(2) have ne: "q \<noteq> []" by auto
  define q' where "q' = butlast q"
  have q: "q = q' @ [x]"
    using ne assms(1) append_butlast_last_id[of q] by (auto simp: q'_def path_from_to_def)
  have ne': "q' \<noteq> []" using assms(2) q by (cases q') auto
  from assms(1) have "walk g (q' @ [x])" "hd (q' @ [x]) = s"
    unfolding q by (simp_all add: path_from_to_def)
  with ne' have "walk g q'" "edge g (last q') x" "hd q' = s"
    by (simp_all add: walk_snoc)
  then have "path_from_to g q' s (last q') \<and> edge g (last q') x"
    by (simp add: path_from_to_def)
  with q show ?thesis by blast
qed

lemma walk_stays:
  assumes "walk g q" "hd q \<in> A" "\<And>y x. y \<in> A \<Longrightarrow> edge g y x \<Longrightarrow> x \<in> A"
  shows "last q \<in> A"
  using assms(1,2)
proof (induction q)
  case Nil
  then show ?case by simp
next
  case (Cons u r)
  show ?case
  proof (cases r)
    case Nil
    with Cons.prems show ?thesis by simp
  next
    case (Cons x rest)
    with Cons.prems have "edge g u x" "walk g r" "u \<in> A" by simp_all
    with assms(3)[of u x] Cons.IH Cons show ?thesis by simp
  qed
qed

lemma sorted_hd_min:
  assumes "sorted (map f xs)" "e \<in> set xs"
  shows "f (hd xs) \<le> (f e :: nat)"
proof (cases xs)
  case Nil
  with assms(2) show ?thesis by simp
next
  case (Cons a l)
  with assms show ?thesis by auto
qed

text \<open>
  The loop invariant.  Every queued path is a shortest path to its vertex; path lengths
  along the queue are nondecreasing and exceed the first by at most one; a visited
  vertex that is no longer queued is not the target and has only visited neighbours;
  every vertex within the first queued path's length of the start is visited.
\<close>

definition bfs_inv :: "'v graph \<Rightarrow> 'v \<Rightarrow> 'v \<Rightarrow> ('v \<times> 'v list) list \<Rightarrow> 'v set \<Rightarrow> bool" where
  "bfs_inv g s t queue visited \<longleftrightarrow>
     (\<forall>e \<in> set queue. path_from_to g (snd e) s (fst e) \<and>
        (\<forall>q. path_from_to g q s (fst e) \<longrightarrow> length (snd e) \<le> length q)) \<and>
     sorted (map (\<lambda>e. length (snd e)) queue) \<and>
     (\<forall>e \<in> set queue. length (snd e) \<le> Suc (length (snd (hd queue)))) \<and>
     (\<forall>y \<in> visited - fst ` set queue. y \<noteq> t \<and> (\<forall>x. edge g y x \<longrightarrow> x \<in> visited)) \<and>
     (queue \<noteq> [] \<longrightarrow>
        (\<forall>q x. path_from_to g q s x \<longrightarrow> length q \<le> length (snd (hd queue)) \<longrightarrow> x \<in> visited)) \<and>
     fst ` set queue \<subseteq> visited \<and> s \<in> visited \<and> visited \<subseteq> set (vertices g)"

lemma bfs_inv_init:
  assumes "s \<in> set (vertices g)"
  shows "bfs_inv g s t [(s, [s])] {s}"
  unfolding bfs_inv_def
proof (intro conjI)
  show "\<forall>e \<in> set [(s, [s])]. path_from_to g (snd e) s (fst e) \<and>
        (\<forall>q. path_from_to g q s (fst e) \<longrightarrow> length (snd e) \<le> length q)"
    by (auto simp: path_from_to_def dest!: walk_nonempty simp: Suc_le_eq)
  show "[(s, [s])] \<noteq> [] \<longrightarrow>
        (\<forall>q x. path_from_to g q s x \<longrightarrow> length q \<le> length (snd (hd [(s, [s])])) \<longrightarrow> x \<in> {s})"
    using path_short by fastforce
qed (use assms in simp_all)

lemma bfs_inv_step:
  assumes wf: "well_formed g" and inv: "bfs_inv g s t ((v, p) # rest) visited" and vt: "v \<noteq> t"
    and new: "new = fresh (map fst (neighbors_of g v)) visited"
  shows "bfs_inv g s t (rest @ map (\<lambda>x. (x, p @ [x])) new) (visited \<union> set new)"
proof -
  let ?f = "\<lambda>x. (x, p @ [x])"
  let ?Q = "rest @ map ?f new"
  let ?V = "visited \<union> set new"
  have snew: "set new = {x. edge g v x} - visited"
    by (auto simp: new set_fresh edge_def)
  note c1 = inv[unfolded bfs_inv_def, THEN conjunct1]
  note c2 = inv[unfolded bfs_inv_def, THEN conjunct2, THEN conjunct1]
  note c3 = inv[unfolded bfs_inv_def, THEN conjunct2, THEN conjunct2, THEN conjunct1]
  note c4 = inv[unfolded bfs_inv_def, THEN conjunct2, THEN conjunct2, THEN conjunct2, THEN conjunct1]
  note c5 = inv[unfolded bfs_inv_def, THEN conjunct2, THEN conjunct2, THEN conjunct2, THEN conjunct2,
      THEN conjunct1]
  note c6 = inv[unfolded bfs_inv_def, THEN conjunct2, THEN conjunct2, THEN conjunct2, THEN conjunct2,
      THEN conjunct2]
  from c1 have P: "path_from_to g p s v" by simp
  from c1 have R1: "path_from_to g (snd e) s (fst e) \<and>
        (\<forall>q. path_from_to g q s (fst e) \<longrightarrow> length (snd e) \<le> length q)"
    if "e \<in> set rest" for e
    using that by simp
  from c2 have S: "sorted (map (\<lambda>e. length (snd e)) rest)"
    "\<And>e. e \<in> set rest \<Longrightarrow> length p \<le> length (snd e)"
    by simp_all
  from c3 have B: "length (snd e) \<le> Suc (length p)" if "e \<in> set rest" for e
    using that by simp
  have J3: "y \<noteq> t \<and> (\<forall>x. edge g y x \<longrightarrow> x \<in> visited)"
    if "y \<in> visited" "y \<noteq> v" "y \<notin> fst ` set rest" for y
  proof -
    from that have "y \<in> visited - fst ` set ((v, p) # rest)" by auto
    from bspec[OF c4 this] show ?thesis .
  qed
  from c5 have J4: "x \<in> visited" if "path_from_to g q s x" "length q \<le> length p" for q x
    using that by simp
  from c6 have J5: "v \<in> visited" "fst ` set rest \<subseteq> visited" "s \<in> visited"
    and J6: "visited \<subseteq> set (vertices g)"
    by simp_all
  have lenp: "1 \<le> length p"
    using P by (cases p) (auto simp: path_from_to_def)
  have E: "path_from_to g (snd e) s (fst e) \<and>
        (\<forall>q. path_from_to g q s (fst e) \<longrightarrow> length (snd e) \<le> length q)"
    if "e \<in> set ?Q" for e
  proof (cases "e \<in> set rest")
    case True
    then show ?thesis by (rule R1)
  next
    case False
    with that obtain x where x: "x \<in> set new" "e = (x, p @ [x])" by auto
    then have ex: "edge g v x" "x \<notin> visited" using snew by auto
    have "length (p @ [x]) \<le> length q" if q: "path_from_to g q s x" for q
    proof (rule ccontr)
      assume "\<not> length (p @ [x]) \<le> length q"
      then have "length q \<le> length p" by simp
      from J4[OF q this] ex(2) show False by simp
    qed
    with path_snoc[OF P ex(1)] x(2) show ?thesis by simp
  qed
  have L: "length (snd e) \<le> Suc (length p)" if "e \<in> set ?Q" for e
  proof (cases "e \<in> set rest")
    case True
    then show ?thesis by (rule B)
  next
    case False
    with that obtain x where "e = (x, p @ [x])" by auto
    then show ?thesis by simp
  qed
  have lens: "map (\<lambda>e. length (snd e)) ?Q =
      map (\<lambda>e. length (snd e)) rest @ replicate (length new) (Suc (length p))"
    by (simp add: comp_def map_replicate_const)
  have S': "sorted (map (\<lambda>e. length (snd e)) ?Q)"
    unfolding lens sorted_append using S(1) B by simp
  have hdQ: "length p \<le> length (snd (hd ?Q))" if "?Q \<noteq> []"
  proof (cases rest)
    case Nil
    with that show ?thesis by (cases new) auto
  next
    case (Cons a list)
    with S(2)[of a] show ?thesis by simp
  qed
  have B': "length (snd e) \<le> Suc (length (snd (hd ?Q)))" if "e \<in> set ?Q" for e
  proof -
    from that have "?Q \<noteq> []" by auto
    from hdQ[OF this] L[OF that] show ?thesis by simp
  qed
  have J3': "y \<noteq> t \<and> (\<forall>x. edge g y x \<longrightarrow> x \<in> ?V)" if "y \<in> ?V - fst ` set ?Q" for y
  proof -
    have fstQ: "fst ` set ?Q = fst ` set rest \<union> set new"
      by (simp add: image_Un image_image)
    from that have y: "y \<in> visited" "y \<notin> fst ` set rest" "y \<notin> set new"
      unfolding fstQ by blast+
    show ?thesis
    proof (cases "y = v")
      case True
      with vt snew show ?thesis by auto
    next
      case False
      from J3[OF y(1) False y(2)] show ?thesis by auto
    qed
  qed
  have hd_min: "length (snd (hd ?Q)) \<le> length (snd e)" if "e \<in> set ?Q" for e
    using sorted_hd_min[OF S' that] .
  have J4': "x \<in> ?V"
    if q: "path_from_to g q s x" and len: "length q \<le> length (snd (hd ?Q))" and ne: "?Q \<noteq> []" for q x
  proof (cases "length q \<le> length p")
    case True
    from J4[OF q True] show ?thesis by simp
  next
    case False
    have "hd ?Q \<in> set ?Q" using ne by (rule hd_in_set)
    from L[OF this] len False have lq: "length q = Suc (length p)" "length (snd (hd ?Q)) = Suc (length p)"
      by simp_all
    with lenp have "2 \<le> length q" by simp
    from path_decomp[OF q this] obtain q' y where d:
      "q = q' @ [x]" "path_from_to g q' s y" "edge g y x"
      by blast
    have lq': "length q' = length p" using d(1) lq(1) by simp
    then have yv: "y \<in> visited" using J4[OF d(2)] by simp
    have "y \<notin> fst ` set ?Q"
    proof
      assume "y \<in> fst ` set ?Q"
      then obtain e where e: "e \<in> set ?Q" "fst e = y" by auto
      from E[OF e(1)] e(2) d(2) have "length (snd e) \<le> length q'" by simp
      moreover from hd_min[OF e(1)] lq(2) have "Suc (length p) \<le> length (snd e)" by simp
      ultimately show False using lq' by simp
    qed
    with yv have "y \<in> ?V - fst ` set ?Q" by simp
    from J3'[OF this] d(3) show ?thesis by simp
  qed
  have "fst ` set ?Q = fst ` set rest \<union> set new"
    by (simp add: image_Un image_image)
  with J5 have C: "fst ` set ?Q \<subseteq> ?V" "s \<in> ?V"
    by blast+
  have vV: "v \<in> set (vertices g)" using J5(1) J6 by blast
  have "set new \<subseteq> set (vertices g)"
    using wf_neighbors_in(1)[OF wf] by (fastforce simp: new set_fresh)
  with J6 have C': "?V \<subseteq> set (vertices g)" by simp
  show ?thesis
    unfolding bfs_inv_def
  proof (intro conjI ballI allI impI)
    fix e assume "e \<in> set ?Q"
    from E[OF this] show "path_from_to g (snd e) s (fst e)" by simp
  next
    fix e q assume "e \<in> set ?Q" "path_from_to g q s (fst e)"
    with E[of e] show "length (snd e) \<le> length q" by simp
  next
    show "sorted (map (\<lambda>e. length (snd e)) ?Q)" by (rule S')
  next
    fix e assume "e \<in> set ?Q"
    then show "length (snd e) \<le> Suc (length (snd (hd ?Q)))" by (rule B')
  next
    fix y assume "y \<in> ?V - fst ` set ?Q"
    from J3'[OF this] show "y \<noteq> t" by simp
  next
    fix y x assume "y \<in> ?V - fst ` set ?Q" "edge g y x"
    with J3'[of y] show "x \<in> ?V" by simp
  next
    fix q x assume "?Q \<noteq> []" "path_from_to g q s x" "length q \<le> length (snd (hd ?Q))"
    then show "x \<in> ?V" using J4' by simp
  next
    show "fst ` set ?Q \<subseteq> ?V" by (rule C)
    show "s \<in> ?V" by (rule C)
    show "?V \<subseteq> set (vertices g)" by (rule C')
  qed
qed

lemma bfs_inv_entry:
  assumes "bfs_inv g s t queue visited" "e \<in> set queue"
  shows "path_from_to g (snd e) s (fst e)"
    and "path_from_to g q s (fst e) \<Longrightarrow> length (snd e) \<le> length q"
proof -
  from assms(1) have "\<forall>e \<in> set queue. path_from_to g (snd e) s (fst e) \<and>
        (\<forall>q. path_from_to g q s (fst e) \<longrightarrow> length (snd e) \<le> length q)"
    unfolding bfs_inv_def by (rule conjunct1)
  from bspec[OF this assms(2)]
  show "path_from_to g (snd e) s (fst e)"
    and "path_from_to g q s (fst e) \<Longrightarrow> length (snd e) \<le> length q"
    by simp_all
qed

lemma bfs_inv_done:
  assumes "bfs_inv g s t queue visited" "y \<in> visited" "y \<notin> fst ` set queue"
  shows "y \<noteq> t" and "edge g y x \<Longrightarrow> x \<in> visited"
proof -
  from assms(1) have "\<forall>y \<in> visited - fst ` set queue. y \<noteq> t \<and> (\<forall>x. edge g y x \<longrightarrow> x \<in> visited)"
    unfolding bfs_inv_def by (elim conjE)
  moreover from assms(2,3) have "y \<in> visited - fst ` set queue" by simp
  ultimately have "y \<noteq> t \<and> (\<forall>x. edge g y x \<longrightarrow> x \<in> visited)" by (rule bspec)
  then show "y \<noteq> t" and "edge g y x \<Longrightarrow> x \<in> visited" by simp_all
qed

lemma bfs_inv_sub:
  assumes "bfs_inv g s t queue visited"
  shows "fst ` set queue \<subseteq> visited" "s \<in> visited" "visited \<subseteq> set (vertices g)"
  using assms[unfolded bfs_inv_def, THEN conjunct2, THEN conjunct2, THEN conjunct2,
      THEN conjunct2, THEN conjunct2]
  by simp_all

lemma shortest_path_loop_correct:
  "well_formed g \<Longrightarrow> bfs_inv g s t queue visited \<Longrightarrow>
     \<exists>r. shortest_path_loop g t queue visited = Inr r \<and>
         (r = None \<longrightarrow> \<not> (\<exists>q. path_from_to g q s t)) \<and>
         (\<forall>p. r = Some p \<longrightarrow> path_from_to g p s t \<and>
            (\<forall>q. path_from_to g q s t \<longrightarrow> length p \<le> length q))"
proof (induction g t queue visited rule: shortest_path_loop.induct)
  case (1 g t queue visited)
  note wf = "1.prems"(1) and inv = "1.prems"(2)
  show ?case
  proof (cases queue)
    case Nil
    have closed: "x \<in> visited" if "y \<in> visited" "edge g y x" for y x
      using bfs_inv_done(2)[OF inv that(1) _ that(2)] by (simp add: Nil)
    have nt: "t \<notin> visited"
      using bfs_inv_done(1)[OF inv, of t] by (auto simp: Nil)
    have sv: "s \<in> visited" using bfs_inv_sub(2)[OF inv] .
    have "\<not> path_from_to g q s t" for q
    proof
      assume "path_from_to g q s t"
      then have w: "walk g q" and h: "hd q = s" and l: "last q = t"
        by (simp_all add: path_from_to_def)
      have "last q \<in> visited"
        using w _ closed by (rule walk_stays) (simp add: h sv)
      with nt l show False by simp
    qed
    then show ?thesis by (simp add: Nil)
  next
    case (Cons e rest)
    obtain v p where e: "e = (v, p)" by (cases e)
    have mem: "(v, p) \<in> set queue" by (simp add: Cons e)
    show ?thesis
    proof (cases "v = t")
      case True
      have "path_from_to g p s t" "\<And>q. path_from_to g q s t \<Longrightarrow> length p \<le> length q"
        using bfs_inv_entry[OF inv mem] True by simp_all
      moreover have "shortest_path_loop g t queue visited = Inr (Some p)"
        by (simp add: Cons e True)
      ultimately show ?thesis by simp
    next
      case False
      have "v \<in> set (vertices g)"
        using bfs_inv_sub(1,3)[OF inv] mem by force
      from wf_get_neighbors[OF wf this] have gn: "get_neighbors g v = Inr (neighbors_of g v)" .
      define new where "new = fresh (map fst (neighbors_of g v)) visited"
      have ep: "extend_paths (neighbors_of g v) p (visited, rest) =
          (visited \<union> set new, rest @ map (\<lambda>x. (x, p @ [x])) new)"
        by (simp add: extend_paths_eq new_def)
      have inv': "bfs_inv g s t (rest @ map (\<lambda>x. (x, p @ [x])) new) (visited \<union> set new)"
        using bfs_inv_step[OF wf inv[unfolded Cons e] False new_def] .
      have eq: "shortest_path_loop g t queue visited =
          shortest_path_loop g t (rest @ map (\<lambda>x. (x, p @ [x])) new) (visited \<union> set new)"
        by (subst shortest_path_loop.simps) (simp add: Cons e False gn ep)
      from "1.IH"[OF Cons e[symmetric] False gn ep[symmetric] wf inv']
      show ?thesis unfolding eq .
    qed
  qed
qed

subsection \<open>Ties: the adjacency-list order\<close>

text \<open>
  \<open>pos g u x\<close> is the position of the first entry for \<open>x\<close> in the adjacency list of
  \<open>u\<close>, and \<open>path_key\<close> lists these positions along a path.  Among paths of the same
  length, the one with the lexicographically least key is the one that follows the
  adjacency lists' order.
\<close>

definition first_index :: "'a list \<Rightarrow> 'a \<Rightarrow> nat" where
  "first_index xs x = (case index_of xs x of None \<Rightarrow> length xs | Some i \<Rightarrow> i)"

definition pos :: "'v graph \<Rightarrow> 'v \<Rightarrow> 'v \<Rightarrow> nat" where
  "pos g u x = first_index (map fst (neighbors_of g u)) x"

fun path_key :: "'v graph \<Rightarrow> 'v list \<Rightarrow> nat list" where
  "path_key g (u # x # rest) = pos g u x # path_key g (x # rest)"
| "path_key g [v] = []"
| "path_key g [] = []"

lemma first_index_Cons:
  "first_index (y # ys) x = (if y = x then 0 else Suc (first_index ys x))"
  by (simp add: first_index_def split: option.splits)

lemma fresh_sorted:
  "sorted_wrt (\<lambda>a b. first_index xs a < first_index xs b) (fresh xs visited)"
proof (induction xs arbitrary: visited)
  case Nil
  then show ?case by simp
next
  case (Cons x xs)
  have mono: "sorted_wrt (\<lambda>a b. first_index (x # xs) a < first_index (x # xs) b) (fresh xs V)"
    if "x \<in> V" for V
  proof (rule sorted_wrt_mono_rel[OF _ Cons.IH[of V]])
    fix a b assume "a \<in> set (fresh xs V)" "b \<in> set (fresh xs V)"
      "first_index xs a < first_index xs b"
    with that show "first_index (x # xs) a < first_index (x # xs) b"
      by (auto simp: set_fresh first_index_Cons)
  qed
  show ?case
  proof (cases "x \<in> visited")
    case True
    with mono[OF True] show ?thesis by simp
  next
    case False
    have "first_index (x # xs) x < first_index (x # xs) a" if "a \<in> set (fresh xs (insert x visited))" for a
      using that by (auto simp: set_fresh first_index_Cons)
    with mono[of "insert x visited"] False show ?thesis by simp
  qed
qed

lemma path_key_snoc:
  "p \<noteq> [] \<Longrightarrow> path_key g (p @ [x]) = path_key g p @ [pos g (last p) x]"
  by (induction g p rule: path_key.induct) auto

lemma length_path_key: "length (path_key g p) = length p - 1"
  by (induction g p rule: path_key.induct) auto

lemma key_less_snoc:
  fixes a b :: "nat list"
  assumes "a < b" "length a = length b"
  shows "a @ [i] < b @ [j]"
  using assms unfolding list_less_def by (simp add: lexord_sufI)

lemma key_same_snoc:
  fixes a :: "nat list"
  shows "a @ [i] < a @ [j] \<longleftrightarrow> i < j"
  unfolding list_less_def by (simp add: lexord_same_pref_iff)

lemma key_le_snoc:
  fixes a b :: "nat list"
  assumes "a \<le> b" "length a = length b" "i \<le> j"
  shows "a @ [i] \<le> b @ [j]"
proof (cases "a = b")
  case True
  show ?thesis
  proof (cases "i = j")
    case True
    with \<open>a = b\<close> show ?thesis by simp
  next
    case False
    with assms(3) have "i < j" by simp
    then have "a @ [i] < a @ [j]" by (simp add: key_same_snoc)
    with \<open>a = b\<close> show ?thesis by simp
  qed
next
  case False
  with assms(1) have "a < b" by simp
  from key_less_snoc[OF this assms(2), of i j] show ?thesis by simp
qed

lemma bfs_inv_near:
  assumes "bfs_inv g s t queue visited" "queue \<noteq> []" "path_from_to g q s x"
    "length q \<le> length (snd (hd queue))"
  shows "x \<in> visited"
  using assms(1)[unfolded bfs_inv_def, THEN conjunct2, THEN conjunct2, THEN conjunct2,
      THEN conjunct2, THEN conjunct1] assms(2,3,4)
  by blast

lemma bfs_inv_sorted:
  assumes "bfs_inv g s t queue visited"
  shows "sorted (map (\<lambda>e. length (snd e)) queue)"
  using assms[unfolded bfs_inv_def, THEN conjunct2, THEN conjunct1] .

lemma bfs_inv_bound:
  assumes "bfs_inv g s t queue visited" "e \<in> set queue"
  shows "length (snd e) \<le> Suc (length (snd (hd queue)))"
  using assms(1)[unfolded bfs_inv_def, THEN conjunct2, THEN conjunct2, THEN conjunct1] assms(2)
  by (rule bspec)

text \<open>
  The second invariant.  Every queued path has the least key among the paths of its
  length to its vertex; queued paths of equal length stand in increasing key order; and
  a queued path one longer than the first extends a path whose key is below the first's.
\<close>

definition bfs_lex_inv :: "'v graph \<Rightarrow> 'v \<Rightarrow> ('v \<times> 'v list) list \<Rightarrow> bool" where
  "bfs_lex_inv g s queue \<longleftrightarrow>
     (\<forall>e \<in> set queue. \<forall>q. path_from_to g q s (fst e) \<longrightarrow> length q = length (snd e) \<longrightarrow>
        path_key g (snd e) \<le> path_key g q) \<and>
     sorted_wrt (\<lambda>a b. length (snd a) = length (snd b) \<longrightarrow>
        path_key g (snd a) < path_key g (snd b)) queue \<and>
     (\<forall>e \<in> set queue. length (snd e) = Suc (length (snd (hd queue))) \<longrightarrow>
        path_key g (butlast (snd e)) < path_key g (snd (hd queue)))"

lemma bfs_lex_inv_init: "bfs_lex_inv g s [(s, [s])]"
proof -
  have "path_key g [s] \<le> path_key g q" if "length q = length [s]" for q
  proof -
    from that obtain a where "q = [a]" by (cases q) auto
    then show ?thesis by simp
  qed
  then show ?thesis by (simp add: bfs_lex_inv_def)
qed

lemma bfs_lex_inv_step:
  assumes wf: "well_formed g" and inv: "bfs_inv g s t ((v, p) # rest) visited"
    and lex: "bfs_lex_inv g s ((v, p) # rest)" and vt: "v \<noteq> t"
    and new: "new = fresh (map fst (neighbors_of g v)) visited"
  shows "bfs_lex_inv g s (rest @ map (\<lambda>x. (x, p @ [x])) new)"
proof -
  let ?f = "\<lambda>x. (x, p @ [x])"
  let ?Q = "rest @ map ?f new"
  let ?R = "\<lambda>a b. length (snd a) = length (snd b) \<longrightarrow> path_key g (snd a) < path_key g (snd b)"
  note k1 = lex[unfolded bfs_lex_inv_def, THEN conjunct1]
  note k2 = lex[unfolded bfs_lex_inv_def, THEN conjunct2, THEN conjunct1]
  note k4 = lex[unfolded bfs_lex_inv_def, THEN conjunct2, THEN conjunct2]
  have K1: "path_key g (snd e) \<le> path_key g q"
    if "e \<in> set ((v, p) # rest)" "path_from_to g q s (fst e)" "length q = length (snd e)" for e q
    using bspec[OF k1 that(1)] that(2,3) by blast
  from k2 have K2h: "?R (v, p) b" if "b \<in> set rest" for b
    using that by simp
  from k2 have K2t: "sorted_wrt ?R rest" by simp
  have K4: "path_key g (butlast (snd e)) < path_key g p"
    if "e \<in> set rest" "length (snd e) = Suc (length p)" for e
  proof -
    from that(1) have "e \<in> set ((v, p) # rest)" by simp
    from bspec[OF k4 this] that(2) show ?thesis by simp
  qed
  have P: "path_from_to g p s v"
    using bfs_inv_entry(1)[OF inv, of "(v, p)"] by simp
  then have pne: "p \<noteq> []" and lastp: "last p = v"
    by (auto simp: path_from_to_def dest: walk_nonempty)
  have lenp: "1 \<le> length p" using pne by (cases p) auto
  have snew: "set new = {x. edge g v x} - visited"
    by (auto simp: new set_fresh edge_def)
  have keyf: "path_key g (p @ [x]) = path_key g p @ [pos g v x]" for x
    using path_key_snoc[OF pne, of g x] lastp by simp
  have ge: "length p \<le> length (snd e)" if "e \<in> set ((v, p) # rest)" for e
    using sorted_hd_min[OF bfs_inv_sorted[OF inv] that] by simp
  have le: "length (snd e) \<le> Suc (length p)" if "e \<in> set ((v, p) # rest)" for e
    using bfs_inv_bound[OF inv that] by simp
  \<comment> \<open>least key of the new entries\<close>
  have N1: "path_key g (p @ [x]) \<le> path_key g q"
    if x: "x \<in> set new" and q: "path_from_to g q s x" and lq: "length q = Suc (length p)" for x q
  proof -
    from x snew have ex: "edge g v x" "x \<notin> visited" by auto
    from lq lenp have "2 \<le> length q" by simp
    from path_decomp[OF q this] obtain q' y where d:
      "q = q' @ [x]" "path_from_to g q' s y" "edge g y x"
      by blast
    have lq': "length q' = length p" using d(1) lq by simp
    from d(2) have q'ne: "q' \<noteq> []" and lastq': "last q' = y"
      by (auto simp: path_from_to_def dest: walk_nonempty)
    have keyq: "path_key g q = path_key g q' @ [pos g y x]"
      unfolding d(1) using path_key_snoc[OF q'ne, of g x] lastq' by simp
    have yv: "y \<in> visited"
      using bfs_inv_near[OF inv _ d(2)] lq' by simp
    have "y \<in> fst ` set ((v, p) # rest)"
    proof (rule ccontr)
      assume "y \<notin> fst ` set ((v, p) # rest)"
      from bfs_inv_done(2)[OF inv yv this d(3)] ex(2) show False by simp
    qed
    then obtain e0 where e0': "y = fst e0" "e0 \<in> set ((v, p) # rest)" by (rule imageE)
    then have e0: "e0 \<in> set ((v, p) # rest)" "fst e0 = y" by simp_all
    have "length (snd e0) \<le> length q'"
      using bfs_inv_entry(2)[OF inv e0(1), of q'] d(2) e0(2) by simp
    with ge[OF e0(1)] lq' have l0: "length (snd e0) = length p" by simp
    have k0: "path_key g (snd e0) \<le> path_key g q'"
      using K1[OF e0(1), of q'] d(2) e0(2) l0 lq' by simp
    have lk: "length (path_key g p) = length (path_key g q')"
      by (simp add: length_path_key lq')
    show ?thesis
    proof (cases "e0 = (v, p)")
      case True
      with e0(2) k0 have "y = v" "path_key g p \<le> path_key g q'" by simp_all
      with key_le_snoc[OF _ lk, of "pos g v x" "pos g v x"] show ?thesis
        by (simp add: keyf keyq)
    next
      case False
      with e0(1) have "e0 \<in> set rest" by simp
      from K2h[OF this] l0 have "path_key g p < path_key g (snd e0)" by simp
      with k0 have "path_key g p < path_key g q'" by simp
      from key_less_snoc[OF this lk, of "pos g v x" "pos g y x"] show ?thesis
        by (simp add: keyf keyq)
    qed
  qed
  have K1': "\<forall>e \<in> set ?Q. \<forall>q. path_from_to g q s (fst e) \<longrightarrow> length q = length (snd e) \<longrightarrow>
        path_key g (snd e) \<le> path_key g q"
  proof (intro ballI allI impI)
    fix e q assume e: "e \<in> set ?Q" and q: "path_from_to g q s (fst e)" "length q = length (snd e)"
    show "path_key g (snd e) \<le> path_key g q"
    proof (cases "e \<in> set rest")
      case True
      then have "e \<in> set ((v, p) # rest)" by simp
      from K1[OF this q] show ?thesis .
    next
      case False
      with e obtain x where x: "x \<in> set new" "e = (x, p @ [x])" by auto
      with N1[OF x(1), of q] q show ?thesis by simp
    qed
  qed
  \<comment> \<open>the order of the queue\<close>
  have Rnew: "sorted_wrt ?R (map ?f new)"
    unfolding sorted_wrt_map
  proof (rule sorted_wrt_mono_rel[OF _ fresh_sorted[of "map fst (neighbors_of g v)" visited, folded new]])
    fix a b
    assume "first_index (map fst (neighbors_of g v)) a < first_index (map fst (neighbors_of g v)) b"
    then have "pos g v a < pos g v b" by (simp add: pos_def)
    then show "?R (?f a) (?f b)" by (simp add: keyf key_same_snoc)
  qed
  have Rmix: "?R a b" if a: "a \<in> set rest" and b: "b \<in> set (map ?f new)" for a b
  proof
    assume l: "length (snd a) = length (snd b)"
    from b obtain x where x: "b = (x, p @ [x])" by auto
    with l have la: "length (snd a) = Suc (length p)" by simp
    from K4[OF a la] have kb: "path_key g (butlast (snd a)) < path_key g p" .
    have ane: "snd a \<noteq> []" using la by auto
    have bne: "butlast (snd a) \<noteq> []" using la lenp by (cases "snd a" rule: rev_cases) auto
    have "path_key g (snd a) = path_key g (butlast (snd a) @ [last (snd a)])"
      using ane by simp
    also have "\<dots> = path_key g (butlast (snd a)) @ [pos g (last (butlast (snd a))) (last (snd a))]"
      by (rule path_key_snoc[OF bne])
    finally have ka: "path_key g (snd a) =
        path_key g (butlast (snd a)) @ [pos g (last (butlast (snd a))) (last (snd a))]" .
    have "length (path_key g (butlast (snd a))) = length (path_key g p)"
      by (simp add: length_path_key la)
    from key_less_snoc[OF kb this] show "path_key g (snd a) < path_key g (snd b)"
      by (simp add: ka x keyf)
  qed
  have K2': "sorted_wrt ?R ?Q"
    unfolding sorted_wrt_append using K2t Rnew Rmix by blast
  \<comment> \<open>entries one longer than the new first entry\<close>
  have K4': "\<forall>e \<in> set ?Q. length (snd e) = Suc (length (snd (hd ?Q))) \<longrightarrow>
        path_key g (butlast (snd e)) < path_key g (snd (hd ?Q))"
  proof (intro ballI impI)
    fix e assume e: "e \<in> set ?Q" and l: "length (snd e) = Suc (length (snd (hd ?Q)))"
    have le': "length (snd e) \<le> Suc (length p)"
    proof (cases "e \<in> set rest")
      case True
      then show ?thesis using le[of e] by simp
    next
      case False
      with e obtain x where "e = (x, p @ [x])" by auto
      then show ?thesis by simp
    qed
    show "path_key g (butlast (snd e)) < path_key g (snd (hd ?Q))"
    proof (cases rest)
      case Nil
      with e obtain x where "x \<in> set new" by auto
      then obtain x0 l0 where "new = x0 # l0" by (cases new) auto
      with Nil l le' show ?thesis by simp
    next
      case (Cons a l')
      then have a: "a \<in> set rest" and hda: "hd ?Q = a" by simp_all
      from ge[of a] a have "length p \<le> length (snd a)" by simp
      with l le' hda have la: "length (snd a) = length p" and lse: "length (snd e) = Suc (length p)"
        by simp_all
      from K2h[OF a] la have pa: "path_key g p < path_key g (snd a)" by simp
      show ?thesis
      proof (cases "e \<in> set rest")
        case True
        from K4[OF True lse] pa show ?thesis unfolding hda by simp
      next
        case False
        with e obtain x where "e = (x, p @ [x])" by auto
        with pa show ?thesis unfolding hda by simp
      qed
    qed
  qed
  from K1' K2' K4' show ?thesis
    unfolding bfs_lex_inv_def by (intro conjI)
qed

lemma shortest_path_loop_lex:
  "well_formed g \<Longrightarrow> bfs_inv g s t queue visited \<Longrightarrow> bfs_lex_inv g s queue \<Longrightarrow>
     shortest_path_loop g t queue visited = Inr (Some p) \<Longrightarrow>
     path_from_to g q s t \<Longrightarrow> length q = length p \<Longrightarrow> path_key g p \<le> path_key g q"
proof (induction g t queue visited rule: shortest_path_loop.induct)
  case (1 g t queue visited)
  note wf = "1.prems"(1) and inv = "1.prems"(2) and lex = "1.prems"(3) and res = "1.prems"(4)
  show ?case
  proof (cases queue)
    case Nil
    with res show ?thesis by simp
  next
    case (Cons e rest)
    obtain v p0 where e: "e = (v, p0)" by (cases e)
    have mem: "(v, p0) \<in> set queue" by (simp add: Cons e)
    show ?thesis
    proof (cases "v = t")
      case True
      with res have "p0 = p" by (simp add: Cons e)
      moreover from lex[unfolded bfs_lex_inv_def, THEN conjunct1] mem
      have "\<forall>q. path_from_to g q s v \<longrightarrow> length q = length p0 \<longrightarrow> path_key g p0 \<le> path_key g q"
        by fastforce
      ultimately show ?thesis using "1.prems"(5,6) True by simp
    next
      case False
      have "v \<in> set (vertices g)"
        using bfs_inv_sub(1,3)[OF inv] mem by force
      from wf_get_neighbors[OF wf this] have gn: "get_neighbors g v = Inr (neighbors_of g v)" .
      define new where "new = fresh (map fst (neighbors_of g v)) visited"
      have ep: "extend_paths (neighbors_of g v) p0 (visited, rest) =
          (visited \<union> set new, rest @ map (\<lambda>x. (x, p0 @ [x])) new)"
        by (simp add: extend_paths_eq new_def)
      have inv': "bfs_inv g s t (rest @ map (\<lambda>x. (x, p0 @ [x])) new) (visited \<union> set new)"
        using bfs_inv_step[OF wf inv[unfolded Cons e] False new_def] .
      have lex': "bfs_lex_inv g s (rest @ map (\<lambda>x. (x, p0 @ [x])) new)"
        using bfs_lex_inv_step[OF wf inv[unfolded Cons e] lex[unfolded Cons e] False new_def] .
      have eq: "shortest_path_loop g t queue visited =
          shortest_path_loop g t (rest @ map (\<lambda>x. (x, p0 @ [x])) new) (visited \<union> set new)"
        by (subst shortest_path_loop.simps) (simp add: Cons e False gn ep)
      from "1.IH"[OF Cons e[symmetric] False gn ep[symmetric] wf inv' lex' res[unfolded eq] "1.prems"(5,6)]
      show ?thesis .
    qed
  qed
qed

text \<open>
  Claim C3.  On every graph built through the interface and for all \<open>start\<close> and
  \<open>end_vertex\<close>, \<^verbatim>\<open>shortest_path\<close> raises nothing.  It returns \<open>None\<close> exactly when an
  endpoint is not a vertex of the graph or no path leads from \<open>start\<close> to
  \<open>end_vertex\<close>.  Otherwise it returns a path from \<open>start\<close> to \<open>end_vertex\<close> that is
  no longer than any other, and among the paths of that length it is the first in the
  order of the adjacency lists (its key is the least).
\<close>

theorem shortest_path_correct:
  assumes "built vs dr wt cs g"
  shows "\<exists>r. shortest_path g start end_vertex = Inr r \<and>
           (r = None \<longleftrightarrow>
              start \<notin> set (vertices g) \<or> end_vertex \<notin> set (vertices g) \<or>
              \<not> (\<exists>q. path_from_to g q start end_vertex)) \<and>
           (\<forall>p. r = Some p \<longrightarrow>
              path_from_to g p start end_vertex \<and>
              (\<forall>q. path_from_to g q start end_vertex \<longrightarrow>
                 length p \<le> length q \<and>
                 (length q = length p \<longrightarrow> path_key g p \<le> path_key g q)))"
proof (cases "start \<notin> set (vertices g) \<or> end_vertex \<notin> set (vertices g)")
  case True
  then have "shortest_path g start end_vertex = Inr None"
    by (simp add: shortest_path_def)
  with True show ?thesis by blast
next
  case False
  from built_well_formed[OF assms] have wf: "well_formed g" by simp
  from False have sv: "start \<in> set (vertices g)" by simp
  have sp: "shortest_path g start end_vertex =
      shortest_path_loop g end_vertex [(start, [start])] {start}"
    using False by (simp add: shortest_path_def)
  note inv = bfs_inv_init[OF sv, of end_vertex]
  note lex = bfs_lex_inv_init[of g start]
  from shortest_path_loop_correct[OF wf inv] obtain r where r:
    "shortest_path_loop g end_vertex [(start, [start])] {start} = Inr r"
    "r = None \<longrightarrow> \<not> (\<exists>q. path_from_to g q start end_vertex)"
    "\<forall>p. r = Some p \<longrightarrow> path_from_to g p start end_vertex \<and>
        (\<forall>q. path_from_to g q start end_vertex \<longrightarrow> length p \<le> length q)"
    by blast
  have none: "r = None \<longleftrightarrow> \<not> (\<exists>q. path_from_to g q start end_vertex)"
  proof
    assume "r = None"
    with r(2) show "\<not> (\<exists>q. path_from_to g q start end_vertex)" by simp
  next
    assume n: "\<not> (\<exists>q. path_from_to g q start end_vertex)"
    show "r = None"
    proof (cases r)
      case (Some p)
      with r(3) n show ?thesis by blast
    qed simp
  qed
  have some: "path_from_to g p start end_vertex \<and>
      (\<forall>q. path_from_to g q start end_vertex \<longrightarrow>
         length p \<le> length q \<and> (length q = length p \<longrightarrow> path_key g p \<le> path_key g q))"
    if p: "r = Some p" for p
  proof -
    from r(1) p have res: "shortest_path_loop g end_vertex [(start, [start])] {start} = Inr (Some p)"
      by simp
    have "path_key g p \<le> path_key g q"
      if "path_from_to g q start end_vertex" "length q = length p" for q
      using shortest_path_loop_lex[OF wf inv lex res that] .
    with r(3) p show ?thesis by blast
  qed
  from r(1) none some False show ?thesis
    unfolding sp by blast
qed

theorem shortest_path_correct_witness:
  "built [] False False
     [AddEdge ''A'' ''C'' 1, AddEdge ''A'' ''B'' 1, AddEdge ''B'' ''D'' 1, AddEdge ''C'' ''D'' 1]
     \<lparr>vertices = [''A'', ''C'', ''B'', ''D''], vertex_count = 4, is_directed = False,
      is_weighted = False,
      adj_list = [(''A'', [(''C'', 1), (''B'', 1)]), (''C'', [(''A'', 1), (''D'', 1)]),
                  (''B'', [(''A'', 1), (''D'', 1)]), (''D'', [(''B'', 1), (''C'', 1)])],
      adj_matrix = [[Num 0, Num 0, Num 0, Num 0], [Num 0, Num 0, Num 0, Num 1],
                    [Num 0, Num 0, Num 0, Num 1], [Num 0, Num 1, Num 1, Num 0]]\<rparr> \<and>
   shortest_path
     \<lparr>vertices = [''A'', ''C'', ''B'', ''D''], vertex_count = 4, is_directed = False,
      is_weighted = False,
      adj_list = [(''A'', [(''C'', 1), (''B'', 1)]), (''C'', [(''A'', 1), (''D'', 1)]),
                  (''B'', [(''A'', 1), (''D'', 1)]), (''D'', [(''B'', 1), (''C'', 1)])],
      adj_matrix = [[Num 0, Num 0, Num 0, Num 0], [Num 0, Num 0, Num 0, Num 1],
                    [Num 0, Num 0, Num 0, Num 1], [Num 0, Num 1, Num 1, Num 0]]\<rparr>
     ''A'' ''D'' = Inr (Some [''A'', ''C'', ''D'']) \<and>
   path_from_to
     \<lparr>vertices = [''A'', ''C'', ''B'', ''D''], vertex_count = 4, is_directed = False,
      is_weighted = False,
      adj_list = [(''A'', [(''C'', 1), (''B'', 1)]), (''C'', [(''A'', 1), (''D'', 1)]),
                  (''B'', [(''A'', 1), (''D'', 1)]), (''D'', [(''B'', 1), (''C'', 1)])],
      adj_matrix = [[Num 0, Num 0, Num 0, Num 0], [Num 0, Num 0, Num 0, Num 1],
                    [Num 0, Num 0, Num 0, Num 1], [Num 0, Num 1, Num 1, Num 0]]\<rparr>
     [''A'', ''B'', ''D''] ''A'' ''D'' \<and>
   path_key
     \<lparr>vertices = [''A'', ''C'', ''B'', ''D''], vertex_count = 4, is_directed = False,
      is_weighted = False,
      adj_list = [(''A'', [(''C'', 1), (''B'', 1)]), (''C'', [(''A'', 1), (''D'', 1)]),
                  (''B'', [(''A'', 1), (''D'', 1)]), (''D'', [(''B'', 1), (''C'', 1)])],
      adj_matrix = [[Num 0, Num 0, Num 0, Num 0], [Num 0, Num 0, Num 0, Num 1],
                    [Num 0, Num 0, Num 0, Num 1], [Num 0, Num 1, Num 1, Num 0]]\<rparr>
     [''A'', ''C'', ''D''] \<le>
   path_key
     \<lparr>vertices = [''A'', ''C'', ''B'', ''D''], vertex_count = 4, is_directed = False,
      is_weighted = False,
      adj_list = [(''A'', [(''C'', 1), (''B'', 1)]), (''C'', [(''A'', 1), (''D'', 1)]),
                  (''B'', [(''A'', 1), (''D'', 1)]), (''D'', [(''B'', 1), (''C'', 1)])],
      adj_matrix = [[Num 0, Num 0, Num 0, Num 0], [Num 0, Num 0, Num 0, Num 1],
                    [Num 0, Num 0, Num 0, Num 1], [Num 0, Num 1, Num 1, Num 0]]\<rparr>
     [''A'', ''B'', ''D'']"
proof -
  let ?g = "\<lparr>vertices = [''A'', ''C'', ''B'', ''D''], vertex_count = 4, is_directed = False,
      is_weighted = False,
      adj_list = [(''A'', [(''C'', 1), (''B'', 1)]), (''C'', [(''A'', 1), (''D'', 1)]),
                  (''B'', [(''A'', 1), (''D'', 1)]), (''D'', [(''B'', 1), (''C'', 1)])],
      adj_matrix = [[Num 0, Num 0, Num 0, Num 0], [Num 0, Num 0, Num 0, Num 1],
                    [Num 0, Num 0, Num 0, Num 1], [Num 0, Num 1, Num 1, Num 0]]\<rparr>"
  have b: "built [] False False
     [AddEdge ''A'' ''C'' 1, AddEdge ''A'' ''B'' 1, AddEdge ''B'' ''D'' 1, AddEdge ''C'' ''D'' 1] ?g"
    by code_simp
  have e: "shortest_path ?g ''A'' ''D'' = Inr (Some [''A'', ''C'', ''D''])"
    by code_simp
  have q: "path_from_to ?g [''A'', ''B'', ''D''] ''A'' ''D''"
    by (simp add: path_from_to_def edge_def neighbors_of_def)
  from shortest_path_correct[OF b, of "''A''" "''D''"] e
  have "\<forall>q. path_from_to ?g q ''A'' ''D'' \<longrightarrow>
          length [''A'', ''C'', ''D''] \<le> length q \<and>
          (length q = length [''A'', ''C'', ''D''] \<longrightarrow>
             path_key ?g [''A'', ''C'', ''D''] \<le> path_key ?g q)"
    by simp
  with q have "path_key ?g [''A'', ''C'', ''D''] \<le> path_key ?g [''A'', ''B'', ''D'']"
    by fastforce
  with b e q show ?thesis by (intro conjI)
qed

section \<open>Topological sort (lib/topology.py)\<close>

subsection \<open>Kahn's algorithm\<close>











subsection \<open>Depth-first topological sort\<close>





subsection \<open>Topological orders and cycles\<close>

text \<open>
  The edge relation of a graph; the graph has a cycle when this relation is not
  \<^const>\<open>acyclic\<close>.  An order is topological when it lists every vertex exactly once
  and the source of every adjacency entry stands before its destination.
\<close>

definition edges :: "'v graph \<Rightarrow> ('v \<times> 'v) set" where
  "edges g = {(u, x). edge g u x}"




lemma first_index_Nil [simp]: "first_index [] a = 0"
  by (simp add: first_index_def)


lemma first_index_le: "first_index xs a \<le> length xs"
  by (induction xs) (auto simp: first_index_Cons)






subsection \<open>In-degree counts\<close>

text \<open>The number of adjacency entries for \<open>x\<close> in the lists of the vertices \<open>us\<close>.\<close>

definition in_count :: "'v graph \<Rightarrow> 'v list \<Rightarrow> 'v \<Rightarrow> nat" where
  "in_count g us x = sum_list (map (\<lambda>u. count_list (map fst (neighbors_of g u)) x) us)"

lemma in_count_simps [simp]:
  "in_count g [] x = 0"
  "in_count g (u # us) x = count_list (map fst (neighbors_of g u)) x + in_count g us x"
  by (simp_all add: in_count_def)



subsection \<open>The parts of Kahn's algorithm\<close>







subsection \<open>Correctness of Kahn's algorithm\<close>

text \<open>The vertices that are not yet in the result.\<close>

definition remaining :: "'v graph \<Rightarrow> 'v list \<Rightarrow> 'v list" where
  "remaining g result = filter (\<lambda>u. u \<notin> set result) (vertices g)"

lemma remaining_Nil [simp]: "remaining g [] = vertices g"
  by (simp add: remaining_def)











subsection \<open>Correctness of the depth-first sort\<close>












subsection \<open>Both sorts on the graphs a caller can build\<close>








end
